theory Spec2Isabelle
  imports Complex_Main
begin

section \<open>Numbers\<close>

text \<open>
  A JavaScript number is an IEEE 754 binary64 value. \<open>Finite x\<close> is the double of value
  \<open>x\<close>; the two zeros are one value here, since no operation below tells them apart
  (nothing divides by a variable, and \<^verbatim>\<open>toFixed\<close> prints both alike). Every operation is
  the exact one followed by \<open>round64\<close>, rounding to the nearest double, ties to the even
  significand, beyond the largest double to an infinity.
\<close>

datatype double = NaN | PosInf | NegInf | Finite real

fun ilog2 :: "nat \<Rightarrow> nat" where
  "ilog2 n = (if n < 2 then 0 else Suc (ilog2 (n div 2)))"

declare ilog2.simps [simp del]

text \<open>The exponent of a positive number: \<open>2\<^sup>e \<le> x < 2\<^sup>e\<^sup>+\<^sup>1\<close>.\<close>

definition exponent :: "real \<Rightarrow> int" where
  "exponent x =
     (if 1 \<le> x then int (ilog2 (nat \<lfloor>x\<rfloor>))
      else - int (ilog2 (nat (\<lceil>1 / x\<rceil> - 1))) - 1)"

definition roundTiesToEven :: "real \<Rightarrow> int" where
  "roundTiesToEven y =
     (let f = \<lfloor>y\<rfloor>; r = y - of_int f
      in if r < 1 / 2 then f else if 1 / 2 < r then f + 1 else if even f then f else f + 1)"

text \<open>
  The significand has 53 bits, so the doubles about \<open>x\<close> are \<open>2\<^sup>e\<^sup>-\<^sup>5\<^sup>2\<close> apart; below
  \<open>2\<^sup>-\<^sup>1\<^sup>0\<^sup>2\<^sup>2\<close> (the subnormal numbers) they stay \<open>2\<^sup>-\<^sup>1\<^sup>0\<^sup>7\<^sup>4\<close> apart.
\<close>

definition round64 :: "real \<Rightarrow> double" where
  "round64 x =
     (if x = 0 then Finite 0
      else
        (let e = max (exponent \<bar>x\<bar>) (- 1022);
             q = 2 powi (e - 52);
             y = of_int (roundTiesToEven (\<bar>x\<bar> / q)) * q
         in if 2 powi 1024 \<le> y then (if 0 < x then PosInf else NegInf)
            else Finite (if 0 < x then y else - y)))"

fun fadd :: "double \<Rightarrow> double \<Rightarrow> double" where
  "fadd (Finite x) (Finite y) = round64 (x + y)"
| "fadd NaN b = NaN"
| "fadd a NaN = NaN"
| "fadd PosInf NegInf = NaN"
| "fadd NegInf PosInf = NaN"
| "fadd PosInf b = PosInf"
| "fadd NegInf b = NegInf"
| "fadd a PosInf = PosInf"
| "fadd a NegInf = NegInf"

fun fsub :: "double \<Rightarrow> double \<Rightarrow> double" where
  "fsub (Finite x) (Finite y) = round64 (x - y)"
| "fsub NaN b = NaN"
| "fsub a NaN = NaN"
| "fsub PosInf PosInf = NaN"
| "fsub NegInf NegInf = NaN"
| "fsub PosInf b = PosInf"
| "fsub NegInf b = NegInf"
| "fsub a PosInf = NegInf"
| "fsub a NegInf = PosInf"

fun fmul :: "double \<Rightarrow> double \<Rightarrow> double" where
  "fmul (Finite x) (Finite y) = round64 (x * y)"
| "fmul NaN b = NaN"
| "fmul a NaN = NaN"
| "fmul PosInf (Finite y) = (if y = 0 then NaN else if 0 < y then PosInf else NegInf)"
| "fmul NegInf (Finite y) = (if y = 0 then NaN else if 0 < y then NegInf else PosInf)"
| "fmul (Finite x) PosInf = (if x = 0 then NaN else if 0 < x then PosInf else NegInf)"
| "fmul (Finite x) NegInf = (if x = 0 then NaN else if 0 < x then NegInf else PosInf)"
| "fmul PosInf PosInf = PosInf"
| "fmul NegInf NegInf = PosInf"
| "fmul PosInf NegInf = NegInf"
| "fmul NegInf PosInf = NegInf"

text \<open>Division by a constant \<open>c\<close> that is a finite double other than 0.\<close>

fun fdiv :: "double \<Rightarrow> real \<Rightarrow> double" where
  "fdiv (Finite x) c = round64 (x / c)"
| "fdiv NaN c = NaN"
| "fdiv PosInf c = (if 0 < c then PosInf else NegInf)"
| "fdiv NegInf c = (if 0 < c then NegInf else PosInf)"

text \<open>\<^verbatim>\<open>a < b\<close>: false with NaN on either side.\<close>

fun fless :: "double \<Rightarrow> double \<Rightarrow> bool" where
  "fless (Finite x) (Finite y) = (x < y)"
| "fless NaN b = False"
| "fless a NaN = False"
| "fless PosInf b = False"
| "fless a NegInf = False"
| "fless NegInf b = True"
| "fless a PosInf = True"

text \<open>
  The unit roundoff, half the distance of 1 to the next double, and half the distance
  between subnormal numbers: a rounding moves \<open>x\<close> by at most \<open>u64 * \<bar>x\<bar> + eta64\<close>.
\<close>

definition u64 :: real where
  "u64 = 2 powi (- 53)"

definition eta64 :: real where
  "eta64 = 2 powi (- 1075)"

section \<open>Money and percentage arithmetic\<close>

text \<open>\<^verbatim>\<open>calculateInvoiceTotal\<close> of \<^verbatim>\<open>client/src/lib/invoiceUtils.ts\<close>.\<close>

definition calculateInvoiceTotal :: "double \<Rightarrow> double \<Rightarrow> double \<Rightarrow> double" where
  "calculateInvoiceTotal subtotal discountPercent taxPercent =
     (let discountAmount = fdiv (fmul subtotal discountPercent) 100;
          taxableAmount = fsub subtotal discountAmount;
          taxAmount = fdiv (fmul taxableAmount taxPercent) 100
      in fadd taxableAmount taxAmount)"

text \<open>
  The total as the specification writes it, in exact arithmetic: the subtotal less its
  discount, times one plus the tax rate.
\<close>

definition totalFormula :: "real \<Rightarrow> real \<Rightarrow> real \<Rightarrow> real" where
  "totalFormula subtotal discount tax = (subtotal - subtotal * discount / 100) * (1 + tax / 100)"

text \<open>
  The computation the specification contrasts it with: the tax taken on the raw subtotal,
  the discount ignored when the tax is computed,
  \<^verbatim>\<open>subtotal - subtotal * discount / 100 + subtotal * tax / 100\<close>.
\<close>

definition taxOnRawSubtotal :: "double \<Rightarrow> double \<Rightarrow> double \<Rightarrow> double" where
  "taxOnRawSubtotal subtotal discountPercent taxPercent =
     fadd (fsub subtotal (fdiv (fmul subtotal discountPercent) 100))
          (fdiv (fmul subtotal taxPercent) 100)"

section \<open>Dates and the clock\<close>

text \<open>
  A \<^verbatim>\<open>Date\<close> object is modelled by its time value, the milliseconds since the epoch in
  UTC; \<open>None\<close> is \<^verbatim>\<open>Invalid Date\<close>, whose time value is NaN. What the host supplies is
  collected in \<open>env\<close>: how \<^verbatim>\<open>new Date(string)\<close> reads a string (the formats it accepts
  beyond ISO 8601 depend on the engine); the offset of local time from UTC in
  milliseconds, \<open>LocalTZA t True\<close> at the UTC time \<open>t\<close> and \<open>LocalTZA t False\<close> at the
  local time \<open>t\<close>, as ECMAScript names it; the time value of \<^verbatim>\<open>new Date()\<close>; and the text
  of a number of magnitude \<open>10\<^sup>2\<^sup>1\<close> or more, in exponent notation.
\<close>

record env =
  Date_parse :: "string \<Rightarrow> int option"
  LocalTZA :: "int \<Rightarrow> bool \<Rightarrow> int"
  Date_now :: int
  Number_toString :: "real \<Rightarrow> string"

definition msPerDay :: int where
  "msPerDay = 86400000"

text \<open>
  \<^verbatim>\<open>a < b\<close> on two dates compares the time values; with NaN on either side it is false.
\<close>

definition date_less :: "int option \<Rightarrow> int option \<Rightarrow> bool" where
  "date_less a b =
     (case a of None \<Rightarrow> False
      | Some x \<Rightarrow> (case b of None \<Rightarrow> False | Some y \<Rightarrow> x < y))"

text \<open>
  \<^verbatim>\<open>d.setHours(0, 0, 0, 0)\<close> on the time value \<open>t\<close>: the local time of \<open>t\<close>, cut to the
  start of its day, and taken back to UTC with the offset in force at that local time.
\<close>

definition setHours0 :: "env \<Rightarrow> int \<Rightarrow> int" where
  "setHours0 e t =
     (let local = t + LocalTZA e t True;
          day = local - local mod msPerDay
      in day - LocalTZA e day False)"

section \<open>Status derivation\<close>

definition isInvoiceOverdue :: "env \<Rightarrow> string \<Rightarrow> string \<Rightarrow> bool" where
  "isInvoiceOverdue e dueDate currentStatus =
     (if currentStatus = ''paid'' then False
      else
        (let due = Date_parse e dueDate;
             today = Some (setHours0 e (Date_now e))
         in date_less due today))"

definition getInvoiceStatus :: "env \<Rightarrow> string \<Rightarrow> string \<Rightarrow> string" where
  "getInvoiceStatus e currentStatus dueDate =
     (if currentStatus = ''paid'' \<or> currentStatus = ''draft'' then currentStatus
      else if isInvoiceOverdue e dueDate currentStatus then ''overdue''
      else currentStatus)"

section \<open>The data model\<close>

text \<open>
  A \<^verbatim>\<open>decimal(p, 2)\<close> column of \<^verbatim>\<open>shared/schema.ts\<close> holds a fixed-point number with two
  fraction digits: \<open>Hundredths n\<close> is the value \<open>n / 100\<close>, which the driver hands over
  as the text \<open>decimal_text\<close> gives. Nullable columns are options. Of each table the
  fields that the functions below read.
\<close>

datatype decimal = Hundredths int

record Client =
  name :: string
  email :: "string option"
  phone :: "string option"
  address :: "string option"

record InvoiceItem =
  description :: string
  quantity :: decimal
  rate :: decimal
  amount :: decimal

text \<open>The field \<^verbatim>\<open>total\<close> is \<open>totalAmount\<close> here: \<open>total\<close> is a constant of HOL.\<close>

record Invoice =
  invoiceNumber :: string
  issueDate :: string
  dueDate :: string
  status :: string
  subtotal :: decimal
  discount :: "decimal option"
  tax :: "decimal option"
  totalAmount :: decimal

record InvoiceWithDetails = Invoice +
  client :: Client
  items :: "InvoiceItem list"

section \<open>Numbers and their text\<close>

definition digit :: "nat \<Rightarrow> char" where
  "digit d = char_of (48 + d)"

fun digits :: "nat \<Rightarrow> string" where
  "digits n = (if n < 10 then [digit n] else digits (n div 10) @ [digit (n mod 10)])"

declare digits.simps [simp del]

text \<open>
  The digits of \<open>n\<close> hundredths with the decimal point set before the last two, as
  \<^verbatim>\<open>Number.prototype.toFixed\<close> lays them out: padded with zeros on the left to three
  digits at least, then split.
\<close>

definition fixed2 :: "nat \<Rightarrow> string" where
  "fixed2 n =
     (let m = digits n;
          m = (if length m \<le> 2 then replicate (3 - length m) (CHR ''0'') @ m else m);
          k = length m
      in take (k - 2) m @ ''.'' @ drop (k - 2) m)"

text \<open>
  \<^verbatim>\<open>x.toFixed(2)\<close>: the text of a number that is not finite; from \<open>10\<^sup>2\<^sup>1\<close> on the sign and
  the exponent notation; otherwise the sign, then the integer \<open>n\<close> with \<open>n / 100\<close> nearest
  to \<open>\<bar>x\<bar>\<close>, the larger one of two equally near, laid out by \<open>fixed2\<close>.
\<close>

definition toFixed2 :: "env \<Rightarrow> double \<Rightarrow> string" where
  "toFixed2 e x =
     (case x of
        NaN \<Rightarrow> ''NaN''
      | PosInf \<Rightarrow> ''Infinity''
      | NegInf \<Rightarrow> ''-Infinity''
      | Finite v \<Rightarrow>
          (if v < 0 then ''-'' else [])
          @ (if 10 ^ 21 \<le> \<bar>v\<bar> then Number_toString e \<bar>v\<bar>
             else fixed2 (nat \<lfloor>\<bar>v\<bar> * 100 + 1 / 2\<rfloor>)))"

definition decimal_text :: "decimal \<Rightarrow> string" where
  "decimal_text d =
     (case d of Hundredths n \<Rightarrow> (if n < 0 then ''-'' else []) @ fixed2 (nat \<bar>n\<bar>))"

text \<open>
  \<^verbatim>\<open>parseFloat\<close> on the text of a decimal column: the double nearest to the decimal
  number.
\<close>

definition parseFloat :: "decimal \<Rightarrow> double" where
  "parseFloat d = (case d of Hundredths n \<Rightarrow> round64 (real_of_int n / 100))"

section \<open>Statistics aggregator\<close>

text \<open>
  \<^verbatim>\<open>getInvoiceStats\<close> of the storage class, from the invoices the query returned on. The
  three \<^verbatim>\<open>let\<close> variables are the triple (pendingAmount, paidAmount, overdueAmount);
  \<open>tally\<close> is the body of the \<^verbatim>\<open>forEach\<close>.
\<close>

record InvoiceStats =
  totalInvoices :: nat
  pendingAmount :: string
  paidAmount :: string
  overdueAmount :: string

definition tally :: "env \<Rightarrow> double \<times> double \<times> double \<Rightarrow> Invoice \<Rightarrow> double \<times> double \<times> double"
  where
  "tally e acc invoice =
     (case acc of (pending, paid, overdue) \<Rightarrow>
        (let t = parseFloat (totalAmount invoice) in
         if status invoice = ''paid'' then (pending, fadd paid t, overdue)
         else if status invoice = ''pending'' then
           (if date_less (Date_parse e (dueDate invoice)) (Some (Date_now e))
            then (pending, paid, fadd overdue t)
            else (fadd pending t, paid, overdue))
         else if status invoice = ''overdue'' then (pending, paid, fadd overdue t)
         else (fadd pending t, paid, overdue)))"

definition getInvoiceStats :: "env \<Rightarrow> Invoice list \<Rightarrow> InvoiceStats" where
  "getInvoiceStats e userInvoices =
     (case foldl (tally e) (Finite 0, Finite 0, Finite 0) userInvoices of
        (pending, paid, overdue) \<Rightarrow>
          \<lparr> totalInvoices = length userInvoices,
            pendingAmount = ''$'' @ toFixed2 e pending,
            paidAmount = ''$'' @ toFixed2 e paid,
            overdueAmount = ''$'' @ toFixed2 e overdue \<rparr>)"

section \<open>Validation\<close>

text \<open>
  \<^verbatim>\<open>validateInvoiceData(invoice: any)\<close>. The argument is untyped, so a field holds any of
  the values a form can put there: nothing, null, a string or a number. The object is a
  lookup of its properties, a property it lacks reading as \<open>Undefined\<close>. The function
  has no assignment to the object; it only builds the list it returns.
\<close>

datatype jsval = Undefined | Null | JStr string | JNum real

datatype error = TypeError

definition truthy :: "jsval \<Rightarrow> bool" where
  "truthy v =
     (case v of Undefined \<Rightarrow> False | Null \<Rightarrow> False | JStr s \<Rightarrow> s \<noteq> [] | JNum x \<Rightarrow> x \<noteq> 0)"

text \<open>
  White space as \<^verbatim>\<open>String.prototype.trim\<close> strips it, among the code units below 256:
  tab, line feed, vertical tab, form feed, carriage return, space and no-break space.
\<close>

definition isWhiteSpace :: "char \<Rightarrow> bool" where
  "isWhiteSpace c = (of_char c \<in> {9, 10, 11, 12, 13, 32, 160 :: nat})"

definition trim :: "string \<Rightarrow> string" where
  "trim s = rev (dropWhile isWhiteSpace (rev (dropWhile isWhiteSpace s)))"

text \<open>
  \<^verbatim>\<open>v?.trim()\<close>: undefined for a missing or null \<open>v\<close>, the trimmed string for a string;
  a number has no method \<^verbatim>\<open>trim\<close>, and the call throws.
\<close>

definition optionalTrim :: "jsval \<Rightarrow> error + jsval" where
  "optionalTrim v =
     (case v of Undefined \<Rightarrow> Inr Undefined | Null \<Rightarrow> Inr Undefined
      | JStr s \<Rightarrow> Inr (JStr (trim s)) | JNum x \<Rightarrow> Inl TypeError)"

text \<open>
  \<^verbatim>\<open>new Date(v)\<close>: invalid for undefined, the epoch for null, the parsed string, and for
  a number the time value it names, cut to an integer, invalid beyond 8.64e15.
\<close>

definition newDate :: "env \<Rightarrow> jsval \<Rightarrow> int option" where
  "newDate e v =
     (case v of Undefined \<Rightarrow> None | Null \<Rightarrow> Some 0
      | JStr s \<Rightarrow> Date_parse e s
      | JNum x \<Rightarrow>
          (if \<bar>x\<bar> \<le> 8640000000000000 then Some (if 0 \<le> x then \<lfloor>x\<rfloor> else \<lceil>x\<rceil>) else None))"

definition validateInvoiceData :: "env \<Rightarrow> (string \<Rightarrow> jsval) \<Rightarrow> error + string list" where
  "validateInvoiceData e invoice =
     (case optionalTrim (invoice ''invoiceNumber'') of
        Inl err \<Rightarrow> Inl err
      | Inr trimmed \<Rightarrow>
          (let errors = [];
               errors = (if \<not> truthy trimmed
                         then errors @ [''Invoice number is required''] else errors);
               errors = (if \<not> truthy (invoice ''clientId'')
                         then errors @ [''Client is required''] else errors);
               errors = (if \<not> truthy (invoice ''issueDate'')
                         then errors @ [''Issue date is required''] else errors);
               errors = (if \<not> truthy (invoice ''dueDate'')
                         then errors @ [''Due date is required''] else errors);
               errors = (if date_less (newDate e (invoice ''dueDate''))
                              (newDate e (invoice ''issueDate''))
                         then errors @ [''Due date must be after issue date''] else errors)
           in Inr errors))"

text \<open>
  The conditions in the words of the specification. A field is present when it holds a
  truthy value (not missing, null, the empty string or 0); the invoice number is present
  and not blank when it is a string with something left after trimming.
\<close>

definition present :: "jsval \<Rightarrow> bool" where
  "present v = truthy v"

definition nonBlank :: "jsval \<Rightarrow> bool" where
  "nonBlank v = (case v of JStr s \<Rightarrow> trim s \<noteq> [] | _ \<Rightarrow> False)"

definition dueBeforeIssue :: "env \<Rightarrow> (string \<Rightarrow> jsval) \<Rightarrow> bool" where
  "dueBeforeIssue e invoice =
     date_less (newDate e (invoice ''dueDate'')) (newDate e (invoice ''issueDate''))"

section \<open>Spreadsheet export\<close>

text \<open>
  The array \<^verbatim>\<open>invoiceData\<close> of the Excel route in \<^verbatim>\<open>server/routes.ts\<close>, handed to
  \<^verbatim>\<open>XLSX.utils.aoa_to_sheet\<close>. A cell holds the value put there: a string, or the value
  of a decimal column as it came from the store.
\<close>

datatype cell = TextCell string | DecimalCell decimal

text \<open>\<^verbatim>\<open>v || ''\<close> on a nullable string, \<^verbatim>\<open>v || '0'\<close> on a nullable decimal.\<close>

definition orEmpty :: "string option \<Rightarrow> cell" where
  "orEmpty v = (case v of None \<Rightarrow> TextCell [] | Some s \<Rightarrow> TextCell s)"

definition orZero :: "decimal option \<Rightarrow> cell" where
  "orZero v = (case v of None \<Rightarrow> TextCell ''0'' | Some d \<Rightarrow> DecimalCell d)"

definition blankRow :: "cell list" where
  "blankRow = [TextCell [], TextCell []]"

definition tableHeaderRow :: "cell list" where
  "tableHeaderRow =
     [TextCell ''Description'', TextCell ''Quantity'', TextCell ''Rate'', TextCell ''Amount'']"

definition itemRow :: "InvoiceItem \<Rightarrow> cell list" where
  "itemRow item =
     [TextCell (description item), DecimalCell (quantity item), DecimalCell (rate item),
      DecimalCell (amount item)]"

definition invoiceData :: "InvoiceWithDetails \<Rightarrow> cell list list" where
  "invoiceData invoice =
     [[TextCell ''Invoice Number'', TextCell (invoiceNumber invoice)],
      [TextCell ''Issue Date'', TextCell (issueDate invoice)],
      [TextCell ''Due Date'', TextCell (dueDate invoice)],
      [TextCell ''Status'', TextCell (status invoice)],
      [TextCell [], TextCell []],
      [TextCell ''Bill To'', TextCell []],
      [TextCell ''Client Name'', TextCell (name (client invoice))],
      [TextCell ''Email'', orEmpty (email (client invoice))],
      [TextCell ''Phone'', orEmpty (phone (client invoice))],
      [TextCell ''Address'', orEmpty (address (client invoice))],
      [TextCell [], TextCell []],
      [TextCell ''Items'', TextCell []],
      [TextCell ''Description'', TextCell ''Quantity'', TextCell ''Rate'', TextCell ''Amount'']]
     @ map itemRow (items invoice)
     @ [[TextCell [], TextCell []],
        [TextCell ''Subtotal'', TextCell [], TextCell [], DecimalCell (subtotal invoice)],
        [TextCell ''Discount (%)'', TextCell [], TextCell [], orZero (discount invoice)],
        [TextCell ''Tax (%)'', TextCell [], TextCell [], orZero (tax invoice)],
        [TextCell ''Total'', TextCell [], TextCell [], DecimalCell (totalAmount invoice)]]"

text \<open>
  Reading a sheet back, as a consumer of the rows does: what follows a blank row, and the
  items found between the item-table header row and the next blank row.
\<close>

definition afterBlank :: "cell list list \<Rightarrow> cell list list" where
  "afterBlank rows = drop 1 (dropWhile (\<lambda>r. r \<noteq> blankRow) rows)"

fun readItemRow :: "cell list \<Rightarrow> InvoiceItem option" where
  "readItemRow [TextCell d, DecimalCell q, DecimalCell r, DecimalCell a] =
     Some \<lparr> description = d, quantity = q, rate = r, amount = a \<rparr>"
| "readItemRow row = None"

definition readItems :: "cell list list \<Rightarrow> InvoiceItem option list" where
  "readItems rows =
     map readItemRow
       (takeWhile (\<lambda>r. r \<noteq> blankRow) (drop 1 (dropWhile (\<lambda>r. r \<noteq> tableHeaderRow) rows)))"

text \<open>
  The order of the rows as the specification lists it, checked on a sheet by reading it
  from the top: key/value pairs up to a blank row, key/value pairs up to the next blank
  row, then the item-table header row, the rows of the items up to a blank row, and four
  summary rows of four cells.
\<close>

definition isPair :: "cell list \<Rightarrow> bool" where
  "isPair r = (length r = 2)"

definition claimedOrder :: "InvoiceWithDetails \<Rightarrow> cell list list \<Rightarrow> bool" where
  "claimedOrder invoice rows =
     (let header = takeWhile (\<lambda>r. r \<noteq> blankRow) rows;
          rest = afterBlank rows;
          clientRows = takeWhile (\<lambda>r. r \<noteq> blankRow) rest;
          rest = afterBlank rest;
          itemRows = takeWhile (\<lambda>r. r \<noteq> blankRow) (drop 1 rest);
          summary = afterBlank (drop 1 rest)
      in list_all isPair header \<and> list_all isPair clientRows
         \<and> take 1 rest = [tableHeaderRow]
         \<and> itemRows = map itemRow (items invoice)
         \<and> map length summary = [4, 4, 4, 4])"

section \<open>PDF export\<close>

text \<open>
  The PDF route of \<^verbatim>\<open>server/routes.ts\<close>, as the calls it makes on the jsPDF document, in
  order: \<^verbatim>\<open>doc.setFontSize(n)\<close> and \<^verbatim>\<open>doc.text(s, x, y)\<close>. The variable \<^verbatim>\<open>yPosition\<close>
  is threaded through with the document.
\<close>

datatype instr = SetFontSize int | DrawText string int int

definition itemLines :: "InvoiceItem \<Rightarrow> int \<Rightarrow> instr list" where
  "itemLines item yPosition =
     [DrawText (description item) 20 yPosition,
      DrawText (decimal_text (quantity item)) 120 yPosition,
      DrawText (''$'' @ decimal_text (rate item)) 140 yPosition,
      DrawText (''$'' @ decimal_text (amount item)) 160 yPosition]"

definition drawItem :: "instr list \<times> int \<Rightarrow> InvoiceItem \<Rightarrow> instr list \<times> int" where
  "drawItem st item =
     (case st of (doc, yPosition) \<Rightarrow> (doc @ itemLines item yPosition, yPosition + 10))"

definition invoicePdf :: "InvoiceWithDetails \<Rightarrow> instr list" where
  "invoicePdf invoice =
     (let doc =
            [SetFontSize 20,
             DrawText ''INVOICE'' 20 30,
             SetFontSize 12,
             DrawText (''Invoice #: '' @ invoiceNumber invoice) 20 50,
             DrawText (''Issue Date: '' @ issueDate invoice) 20 60,
             DrawText (''Due Date: '' @ dueDate invoice) 20 70,
             DrawText ''Bill To:'' 20 90,
             DrawText (name (client invoice)) 20 100];
          doc = (case address (client invoice) of
                   None \<Rightarrow> doc
                 | Some a \<Rightarrow> if a \<noteq> [] then doc @ [DrawText a 20 110] else doc);
          yPosition = 130;
          doc = doc @
            [DrawText ''Description'' 20 yPosition,
             DrawText ''Qty'' 120 yPosition,
             DrawText ''Rate'' 140 yPosition,
             DrawText ''Amount'' 160 yPosition];
          yPosition = yPosition + 10;
          (doc, yPosition) = foldl drawItem (doc, yPosition) (items invoice);
          yPosition = yPosition + 10;
          doc = doc @ [DrawText (''Subtotal: $'' @ decimal_text (subtotal invoice)) 120 yPosition];
          yPosition = yPosition + 10;
          (doc, yPosition) =
            (case discount invoice of
               None \<Rightarrow> (doc, yPosition)
             | Some d \<Rightarrow>
                 if fless (Finite 0) (parseFloat d)
                 then (doc @ [DrawText (''Discount: '' @ decimal_text d @ ''%'') 120 yPosition],
                       yPosition + 10)
                 else (doc, yPosition));
          (doc, yPosition) =
            (case tax invoice of
               None \<Rightarrow> (doc, yPosition)
             | Some t \<Rightarrow>
                 if fless (Finite 0) (parseFloat t)
                 then (doc @ [DrawText (''Tax: '' @ decimal_text t @ ''%'') 120 yPosition],
                       yPosition + 10)
                 else (doc, yPosition))
      in doc @ [DrawText (''Total: $'' @ decimal_text (totalAmount invoice)) 120 yPosition])"

text \<open>
  The conditions in the words of the specification: the client has an address; a
  percentage is above 0.
\<close>

definition hasAddress :: "InvoiceWithDetails \<Rightarrow> bool" where
  "hasAddress invoice = (case address (client invoice) of None \<Rightarrow> False | Some a \<Rightarrow> a \<noteq> [])"

definition positive :: "decimal option \<Rightarrow> bool" where
  "positive v = (case v of None \<Rightarrow> False | Some d \<Rightarrow> (case d of Hundredths n \<Rightarrow> 0 < n))"

text \<open>
  The parts of the document in closed form: the lines of the items from height \<open>y\<close> on,
  ten apart, and the totals block from height \<open>y\<close> on.
\<close>

fun itemBlock :: "int \<Rightarrow> InvoiceItem list \<Rightarrow> instr list" where
  "itemBlock y [] = []"
| "itemBlock y (item # rest) = itemLines item y @ itemBlock (y + 10) rest"

definition addressText :: "InvoiceWithDetails \<Rightarrow> string" where
  "addressText invoice = (case address (client invoice) of None \<Rightarrow> [] | Some a \<Rightarrow> a)"

definition percentText :: "decimal option \<Rightarrow> string" where
  "percentText v = (case v of None \<Rightarrow> [] | Some d \<Rightarrow> decimal_text d)"

definition step :: "bool \<Rightarrow> int" where
  "step shown = (if shown then 10 else 0)"

definition totalsBlock :: "InvoiceWithDetails \<Rightarrow> int \<Rightarrow> instr list" where
  "totalsBlock invoice y =
     [DrawText (''Subtotal: $'' @ decimal_text (subtotal invoice)) 120 y]
     @ (if positive (discount invoice)
        then [DrawText (''Discount: '' @ percentText (discount invoice) @ ''%'') 120 (y + 10)]
        else [])
     @ (if positive (tax invoice)
        then [DrawText (''Tax: '' @ percentText (tax invoice) @ ''%'') 120
                (y + 10 + step (positive (discount invoice)))]
        else [])
     @ [DrawText (''Total: $'' @ decimal_text (totalAmount invoice)) 120
          (y + 10 + step (positive (discount invoice)) + step (positive (tax invoice)))]"

text \<open>A line of the document that starts with the given label.\<close>

fun labelled :: "string \<Rightarrow> instr \<Rightarrow> bool" where
  "labelled l (DrawText s x y) = (take (length l) s = l)"
| "labelled l (SetFontSize n) = False"

text \<open>The texts drawn at height \<open>y\<close>, in order.\<close>

fun textAt :: "int \<Rightarrow> instr \<Rightarrow> string list" where
  "textAt y (DrawText s x y') = (if y' = y then [s] else [])"
| "textAt y (SetFontSize n) = []"

definition textsAt :: "int \<Rightarrow> instr list \<Rightarrow> string list" where
  "textsAt y doc = concat (map (textAt y) doc)"

section \<open>The bucketing rule and the reading of amounts, in the words of the specification\<close>

text \<open>
  The rule of the aggregator as the specification words it: the total of a paid invoice
  goes to the paid amount; otherwise, of an invoice whose effective status is overdue (its
  status is overdue, or it is pending with a due date before now), to the overdue amount;
  every other total to the pending amount. An amount is the totals of its bucket, added
  up as numbers in the order of the list.
\<close>

datatype bucket = Paid | Overdue | Pending

definition spec_bucket :: "env \<Rightarrow> Invoice \<Rightarrow> bucket" where
  "spec_bucket e i =
     (if status i = ''paid'' then Paid
      else if status i = ''overdue''
          \<or> (status i = ''pending'' \<and> date_less (Date_parse e (dueDate i)) (Some (Date_now e)))
        then Overdue
      else Pending)"

definition bucket_total :: "env \<Rightarrow> bucket \<Rightarrow> Invoice list \<Rightarrow> double" where
  "bucket_total e b invs =
     foldl fadd (Finite 0)
       (map (\<lambda>i. parseFloat (totalAmount i)) (filter (\<lambda>i. spec_bucket e i = b) invs))"

text \<open>
  The totals as the decimal numbers they are, and their exact sums: the whole hundredths
  of a decimal, its value, and the sum of the totals of a bucket.
\<close>

definition hundredths :: "decimal \<Rightarrow> int" where
  "hundredths d = (case d of Hundredths n \<Rightarrow> n)"

definition decimal_value :: "decimal \<Rightarrow> real" where
  "decimal_value d = real_of_int (hundredths d) / 100"

definition bucket_sum :: "env \<Rightarrow> bucket \<Rightarrow> Invoice list \<Rightarrow> real" where
  "bucket_sum e b invs =
     sum_list (map (\<lambda>i. decimal_value (totalAmount i)) (filter (\<lambda>i. spec_bucket e i = b) invs))"

text \<open>
  An amount read as a number: the currency sign dropped, then a sign, the digits before
  the point, and the digits after it as a fraction.
\<close>

definition is_digit :: "char \<Rightarrow> bool" where
  "is_digit c = (48 \<le> (of_char c :: nat) \<and> (of_char c :: nat) \<le> 57)"

definition digit_value :: "char \<Rightarrow> nat" where
  "digit_value c = of_char c - 48"

definition readDigits :: "string \<Rightarrow> nat" where
  "readDigits s = foldl (\<lambda>a c. 10 * a + digit_value c) 0 s"

definition readDecimal :: "string \<Rightarrow> real" where
  "readDecimal s =
     (let neg = (take 1 s = ''-'');
          body = (if neg then drop 1 s else s);
          whole = takeWhile (\<lambda>c. c \<noteq> CHR ''.'') body;
          frac = drop 1 (dropWhile (\<lambda>c. c \<noteq> CHR ''.'') body);
          v = real (readDigits whole) + real (readDigits frac) / 10 ^ length frac
      in if neg then - v else v)"

definition readAmount :: "string \<Rightarrow> real" where
  "readAmount s = readDecimal (drop 1 s)"

section \<open>Sample inputs\<close>

text \<open>
  A host in UTC at noon of 1 June 2024 (time value 1717243200000), whose \<^verbatim>\<open>Date\<close> reads
  \<^verbatim>\<open>2024-06-01\<close> as midnight UTC of that day (1717200000000 = 19875 days),
  \<^verbatim>\<open>2024-01-01\<close> as midnight UTC of that day (1704067200000 = 19723 days) and
  \<^verbatim>\<open>2024-07-01\<close> likewise (1719792000000 = 19905 days). No sample reaches a number of
  \<open>10\<^sup>2\<^sup>1\<close>.
\<close>

definition isoDates :: "string \<Rightarrow> int option" where
  "isoDates s =
     (if s = ''2024-06-01'' then Some 1717200000000
      else if s = ''2024-01-01'' then Some 1704067200000
      else if s = ''2024-07-01'' then Some 1719792000000
      else None)"

definition noon_1_June_2024 :: env where
  "noon_1_June_2024 =
     \<lparr> Date_parse = isoDates,
       LocalTZA = (\<lambda>t isUTC. 0),
       Date_now = 1717243200000,
       Number_toString = (\<lambda>x. []) \<rparr>"

text \<open>
  A host four hours west of UTC, as New York is in summer, at noon local time of 1 June
  2024 (16:00 UTC, time value 1717257600000).
\<close>

definition noon_1_June_2024_west :: env where
  "noon_1_June_2024_west =
     \<lparr> Date_parse = isoDates,
       LocalTZA = (\<lambda>t isUTC. - 14400000),
       Date_now = 1717257600000,
       Number_toString = (\<lambda>x. []) \<rparr>"

definition dueToday :: Invoice where
  "dueToday =
     \<lparr> invoiceNumber = ''INV-1'', issueDate = ''2024-01-01'', dueDate = ''2024-06-01'',
       status = ''pending'', subtotal = Hundredths 12500, discount = Some (Hundredths 1000),
       tax = Some (Hundredths 500), totalAmount = Hundredths 11813 \<rparr>"

text \<open>
  Six invoices, one of each kind the aggregator tells apart: pending and due on 1 January
  2024, pending and due on 1 July 2024, paid, draft, cancelled, and overdue by status.
\<close>

definition sampleInvoices :: "Invoice list" where
  "sampleInvoices =
     [dueToday\<lparr>dueDate := ''2024-01-01''\<rparr>,
      dueToday\<lparr>dueDate := ''2024-07-01'', totalAmount := Hundredths 5000\<rparr>,
      dueToday\<lparr>status := ''paid'', totalAmount := Hundredths 20010\<rparr>,
      dueToday\<lparr>status := ''draft'', totalAmount := Hundredths 1020\<rparr>,
      dueToday\<lparr>status := ''cancelled'', totalAmount := Hundredths 30\<rparr>,
      dueToday\<lparr>status := ''overdue'', totalAmount := Hundredths 70\<rparr>]"

text \<open>A draft invoice of the largest total a \<^verbatim>\<open>decimal(10, 2)\<close> column holds, 99999999.99.\<close>

definition largestDraft :: Invoice where
  "largestDraft = dueToday\<lparr>status := ''draft'', totalAmount := Hundredths 9999999999\<rparr>"

definition acme :: Client where
  "acme = \<lparr> name = ''Acme'', email = None, phone = None, address = Some ''1 High Street'' \<rparr>"

definition work :: InvoiceItem where
  "work = \<lparr> description = ''Work'', quantity = Hundredths 200, rate = Hundredths 5000,
            amount = Hundredths 10000 \<rparr>"

definition parts :: InvoiceItem where
  "parts = \<lparr> description = ''Parts'', quantity = Hundredths 100, rate = Hundredths 2500,
             amount = Hundredths 2500 \<rparr>"

definition sampleInvoice :: InvoiceWithDetails where
  "sampleInvoice =
     \<lparr> invoiceNumber = ''INV-1'', issueDate = ''2024-01-01'', dueDate = ''2024-06-01'',
       status = ''pending'', subtotal = Hundredths 12500, discount = Some (Hundredths 1000),
       tax = None, totalAmount = Hundredths 11250, client = acme, items = [work, parts] \<rparr>"

definition sampleForm :: "string \<Rightarrow> jsval" where
  "sampleForm k =
     (if k = ''invoiceNumber'' then JStr ''INV-1''
      else if k = ''clientId'' then JNum 7
      else if k = ''issueDate'' then JStr ''2024-01-01''
      else if k = ''dueDate'' then JStr ''2024-06-01''
      else Undefined)"

text \<open>A form with a blank invoice number and a due date before the issue date.\<close>

definition badForm :: "string \<Rightarrow> jsval" where
  "badForm k =
     (if k = ''invoiceNumber'' then JStr ''  ''
      else if k = ''clientId'' then JNum 7
      else if k = ''issueDate'' then JStr ''2024-06-01''
      else if k = ''dueDate'' then JStr ''2024-01-01''
      else Undefined)"

section \<open>Properties of rounding\<close>

lemma ilog2_bounds: "0 < n \<Longrightarrow> 2 ^ ilog2 n \<le> n \<and> n < 2 ^ Suc (ilog2 n)"
proof (induction n rule: ilog2.induct)
  case (1 n)
  show ?case
  proof (cases "n < 2")
    case True
    with "1.prems" have "n = 1" by simp
    then show ?thesis by (simp add: ilog2.simps)
  next
    case False
    then have pos: "0 < n div 2" by simp
    have IH: "2 ^ ilog2 (n div 2) \<le> n div 2 \<and> n div 2 < 2 ^ Suc (ilog2 (n div 2))"
      using False pos by (rule "1.IH")
    have eq: "ilog2 n = Suc (ilog2 (n div 2))"
      using False by (subst ilog2.simps) simp
    have "2 * 2 ^ ilog2 (n div 2) \<le> 2 * (n div 2)" using IH by simp
    also have "\<dots> \<le> n" by simp
    finally have lo: "2 ^ ilog2 n \<le> n" by (simp add: eq)
    have "n div 2 + 1 \<le> 2 ^ Suc (ilog2 (n div 2))" using IH by simp
    then have "2 * (n div 2) + 2 \<le> 2 * 2 ^ Suc (ilog2 (n div 2))" by simp
    moreover have "n < 2 * (n div 2) + 2" by presburger
    ultimately have "n < 2 ^ Suc (ilog2 n)" by (simp add: eq)
    with lo show ?thesis by simp
  qed
qed

lemma exponent_bounds:
  assumes "0 < x"
  shows "2 powi exponent x \<le> x" and "x < 2 powi (exponent x + 1)"
proof -
  have "2 powi exponent x \<le> x \<and> x < 2 powi (exponent x + 1)"
  proof (cases "1 \<le> x")
    case True
    define n where "n = nat \<lfloor>x\<rfloor>"
    have n: "0 < n" "real n \<le> x" "x < real n + 1"
      using True by (simp_all add: n_def)
    have e: "exponent x = int (ilog2 n)"
      using True by (simp add: exponent_def n_def)
    have b: "2 ^ ilog2 n \<le> n" "n < 2 ^ Suc (ilog2 n)"
      using ilog2_bounds [OF n(1)] by simp_all
    have "real (2 ^ ilog2 n) \<le> real n" using b(1) by (simp only: of_nat_le_iff)
    then have "(2::real) ^ ilog2 n \<le> real n" by (simp only: of_nat_power of_nat_numeral)
    moreover have "2 powi exponent x = (2::real) ^ ilog2 n" by (simp add: e)
    ultimately have lo: "2 powi exponent x \<le> x" using n(2) by linarith
    have "n + 1 \<le> 2 ^ Suc (ilog2 n)" using b(2) by simp
    then have "real (n + 1) \<le> real (2 ^ Suc (ilog2 n))" by (simp only: of_nat_le_iff)
    then have "real n + 1 \<le> (2::real) ^ Suc (ilog2 n)"
      by (simp only: of_nat_power of_nat_numeral of_nat_add of_nat_1)
    then have "x < 2 ^ Suc (ilog2 n)" using n(3) by linarith
    moreover have "2 powi (exponent x + 1) = (2::real) ^ Suc (ilog2 n)"
      by (simp add: e power_int_add)
    ultimately show ?thesis using lo by simp
  next
    case False
    define c where "c = \<lceil>1 / x\<rceil>"
    define m where "m = nat (c - 1)"
    have inv: "1 < 1 / x" using assms False by simp
    have c: "1 / x \<le> of_int c" "of_int c - 1 < 1 / x"
      by (simp_all add: c_def) linarith+
    have c2: "2 \<le> c" using inv c(1) by linarith
    have m: "0 < m" "int m = c - 1" using c2 by (simp_all add: m_def)
    have e: "exponent x = - int (ilog2 m) - 1"
      using False by (simp add: exponent_def m_def c_def)
    have b: "2 ^ ilog2 m \<le> m" "m < 2 ^ Suc (ilog2 m)"
      using ilog2_bounds [OF m(1)] by simp_all
    have rm: "real m = of_int c - 1"
    proof -
      have "real_of_int (int m) = real_of_int (c - 1)" by (simp only: m(2))
      then show ?thesis by simp
    qed
    have "real (2 ^ ilog2 m) \<le> real m" using b(1) by (simp only: of_nat_le_iff)
    then have "(2::real) ^ ilog2 m \<le> real m" by (simp only: of_nat_power of_nat_numeral)
    then have up: "2 ^ ilog2 m < 1 / x" using c(2) rm by linarith
    have "m + 1 \<le> 2 ^ Suc (ilog2 m)" using b(2) by simp
    then have "real (m + 1) \<le> real (2 ^ Suc (ilog2 m))" by (simp only: of_nat_le_iff)
    then have "real m + 1 \<le> (2::real) ^ Suc (ilog2 m)"
      by (simp only: of_nat_power of_nat_numeral of_nat_add of_nat_1)
    then have "of_int c \<le> (2::real) ^ Suc (ilog2 m)"
      using rm by linarith
    then have low: "1 / x \<le> 2 ^ Suc (ilog2 m)" using c(1) by linarith
    have p1: "2 powi exponent x = 1 / (2::real) ^ Suc (ilog2 m)"
    proof -
      have "exponent x = - int (Suc (ilog2 m))" by (simp add: e)
      then show ?thesis by (simp only: power_int_minus power_int_of_nat) (simp add: field_simps)
    qed
    have p2: "2 powi (exponent x + 1) = 1 / (2::real) ^ ilog2 m"
    proof -
      have "exponent x + 1 = - int (ilog2 m)" by (simp add: e)
      then show ?thesis by (simp only: power_int_minus power_int_of_nat) (simp add: field_simps)
    qed
    have "1 / 2 ^ Suc (ilog2 m) \<le> x"
      using low assms by (simp add: field_simps)
    moreover have "x < 1 / 2 ^ ilog2 m"
      using up assms by (simp add: field_simps)
    ultimately show ?thesis by (simp only: p1 p2)
  qed
  then show "2 powi exponent x \<le> x" and "x < 2 powi (exponent x + 1)" by simp_all
qed

lemma exponent_unique:
  assumes "2 powi e \<le> x" and "x < 2 powi (e + 1)"
  shows "exponent x = e"
proof -
  have pos: "0 < x"
    using assms(1) by (rule less_le_trans [rotated]) simp
  note b = exponent_bounds [OF pos]
  have "\<not> exponent x < e"
  proof
    assume "exponent x < e"
    then have "2 powi (exponent x + 1) \<le> (2::real) powi e"
      by (intro power_int_increasing) simp_all
    with b(2) assms(1) show False by linarith
  qed
  moreover have "\<not> e < exponent x"
  proof
    assume "e < exponent x"
    then have "2 powi (e + 1) \<le> (2::real) powi exponent x"
      by (intro power_int_increasing) simp_all
    with b(1) assms(2) show False by linarith
  qed
  ultimately show ?thesis by simp
qed

lemma roundTiesToEven_cases:
  "roundTiesToEven y = \<lfloor>y\<rfloor> \<and> y - of_int \<lfloor>y\<rfloor> \<le> 1 / 2
   \<or> roundTiesToEven y = \<lfloor>y\<rfloor> + 1 \<and> 1 / 2 \<le> y - of_int \<lfloor>y\<rfloor>"
  by (auto simp: roundTiesToEven_def Let_def)

lemma roundTiesToEven_error: "\<bar>of_int (roundTiesToEven y) - y\<bar> \<le> 1 / 2"
proof -
  have "of_int \<lfloor>y\<rfloor> \<le> y" "y < of_int \<lfloor>y\<rfloor> + 1" by linarith+
  with roundTiesToEven_cases [of y] show ?thesis by auto
qed

lemma roundTiesToEven_of_int: "roundTiesToEven (of_int k) = k"
  by (simp add: roundTiesToEven_def)

lemma roundTiesToEven_le: "y \<le> of_int k \<Longrightarrow> roundTiesToEven y \<le> k"
proof -
  assume le: "y \<le> of_int k"
  show ?thesis
  proof (cases "y = of_int k")
    case True
    then show ?thesis by (simp add: roundTiesToEven_of_int)
  next
    case False
    with le have "y < of_int k" by simp
    then have "\<lfloor>y\<rfloor> < k" by (simp add: floor_less_iff)
    with roundTiesToEven_cases [of y] show ?thesis by auto
  qed
qed

lemma roundTiesToEven_ge: "of_int k \<le> y \<Longrightarrow> k \<le> roundTiesToEven y"
proof -
  assume "of_int k \<le> y"
  then have "k \<le> \<lfloor>y\<rfloor>" by (simp add: le_floor_iff)
  with roundTiesToEven_cases [of y] show ?thesis by auto
qed

lemma round64_zero: "round64 0 = Finite 0"
  by (simp add: round64_def)

lemma round64_finite:
  assumes "\<bar>x\<bar> < 2 powi 1023"
  obtains y where "round64 x = Finite y"
    and "\<bar>y - x\<bar> \<le> u64 * \<bar>x\<bar> + eta64"
    and "0 \<le> x \<Longrightarrow> 0 \<le> y" and "x \<le> 0 \<Longrightarrow> y \<le> 0"
proof (cases "x = 0")
  case True
  show ?thesis
  proof (rule that [of 0])
    show "round64 x = Finite 0" using True by (simp add: round64_zero)
    show "\<bar>0 - x\<bar> \<le> u64 * \<bar>x\<bar> + eta64" using True by (simp add: eta64_def)
  qed simp_all
next
  case False
  define a where "a = \<bar>x\<bar>"
  define E where "E = exponent a"
  define e where "e = max E (- 1022)"
  define q :: real where "q = 2 powi (e - 52)"
  define m where "m = roundTiesToEven (a / q)"
  define y where "y = of_int m * q"
  have a: "0 < a" using False by (simp add: a_def)
  have q: "0 < q" by (simp add: q_def)
  have E: "2 powi E \<le> a" "a < 2 powi (E + 1)"
    using exponent_bounds [OF a] by (simp_all add: E_def)
  have E_le: "E \<le> 1022"
  proof (rule ccontr)
    assume "\<not> E \<le> 1022"
    then have "(2::real) powi 1023 \<le> 2 powi E" by (intro power_int_increasing) simp_all
    with E(1) assms show False by (simp add: a_def)
  qed
  then have e_le: "e \<le> 1022" by (simp add: e_def)
  have q53: "q * 2 ^ 53 = 2 powi (e + 1)"
  proof -
    have "(2::real) powi (e - 52 + 53) = 2 powi (e - 52) * 2 powi 53"
      by (rule power_int_add) simp
    moreover have "e - 52 + 53 = e + 1" by simp
    moreover have "(2::real) powi 53 = 2 ^ 53" by (rule power_int_numeral)
    ultimately show ?thesis by (simp only: q_def)
  qed
  have "a < 2 powi (e + 1)"
  proof -
    have "(2::real) powi (E + 1) \<le> 2 powi (e + 1)"
      by (intro power_int_increasing) (simp_all add: e_def)
    with E(2) show ?thesis by linarith
  qed
  then have "a / q < 2 ^ 53" using q q53 by (simp add: field_simps)
  then have "a / q \<le> of_int (2 ^ 53)" by simp
  then have m_le: "m \<le> 2 ^ 53" unfolding m_def by (rule roundTiesToEven_le)
  have "of_int 0 \<le> a / q" using a q by simp
  then have m_ge: "0 \<le> m" unfolding m_def by (rule roundTiesToEven_ge)
  have y_ge: "0 \<le> y" using m_ge q by (simp add: y_def)
  have "y \<le> 2 ^ 53 * q"
  proof -
    have "real_of_int m \<le> 2 ^ 53" using m_le by (metis of_int_le_iff of_int_numeral of_int_power)
    then show ?thesis unfolding y_def using q by (intro mult_right_mono) simp_all
  qed
  also have "\<dots> = 2 powi (e + 1)" using q53 by (simp add: mult.commute)
  also have "\<dots> \<le> 2 powi 1023" using e_le by (intro power_int_increasing) simp_all
  also have "\<dots> < (2::real) powi 1024" by (intro power_int_strict_increasing) simp_all
  finally have y_lt: "y < 2 powi 1024" .
  have r: "round64 x = Finite (if 0 < x then y else - y)"
    using False y_lt
    by (simp add: round64_def Let_def a_def [symmetric] E_def [symmetric] e_def [symmetric]
        q_def [symmetric] m_def [symmetric] y_def [symmetric])
  have "\<bar>of_int m - a / q\<bar> \<le> 1 / 2" unfolding m_def by (rule roundTiesToEven_error)
  then have "\<bar>of_int m - a / q\<bar> * q \<le> 1 / 2 * q" using q by (intro mult_right_mono) simp_all
  moreover have "\<bar>of_int m - a / q\<bar> * q = \<bar>y - a\<bar>"
  proof -
    have "\<bar>of_int m - a / q\<bar> * q = \<bar>(of_int m - a / q) * q\<bar>" using q by (simp add: abs_mult)
    also have "(of_int m - a / q) * q = y - a" using q by (simp add: y_def field_simps)
    finally show ?thesis .
  qed
  ultimately have err: "\<bar>y - a\<bar> \<le> q / 2" by simp
  have half: "q / 2 = 2 powi (e - 53)"
  proof -
    have "(2::real) powi (e - 53 + 1) = 2 powi (e - 53) * 2 powi 1"
      by (rule power_int_add) simp
    moreover have "e - 53 + 1 = e - 52" by simp
    ultimately have "q = 2 powi (e - 53) * 2" by (simp add: q_def)
    then show ?thesis by simp
  qed
  have "q / 2 \<le> u64 * a + eta64"
  proof (cases "- 1022 \<le> E")
    case True
    then have "e = E" by (simp add: e_def)
    have "(2::real) powi (- 53 + E) = 2 powi (- 53) * 2 powi E"
      by (rule power_int_add) simp
    moreover have "- 53 + E = E - 53" by simp
    ultimately have "(2::real) powi (E - 53) = 2 powi (- 53) * 2 powi E" by simp
    also have "\<dots> \<le> 2 powi (- 53) * a" using E(1) by (intro mult_left_mono) simp_all
    finally have "q / 2 \<le> u64 * a" by (simp add: half \<open>e = E\<close> u64_def)
    moreover have "0 \<le> eta64" by (simp add: eta64_def)
    ultimately show ?thesis by linarith
  next
    case False
    then have "e = - 1022" by (simp add: e_def)
    then have "q / 2 = eta64" by (simp add: half eta64_def)
    moreover have "0 \<le> u64 * a" using a by (simp add: u64_def)
    ultimately show ?thesis by linarith
  qed
  with err have bound: "\<bar>y - a\<bar> \<le> u64 * a + eta64" by linarith
  show ?thesis
  proof (cases "0 < x")
    case True
    then have "a = x" by (simp add: a_def)
    show ?thesis
    proof (rule that [of y])
      show "round64 x = Finite y" using r True by simp
      show "\<bar>y - x\<bar> \<le> u64 * \<bar>x\<bar> + eta64" using bound True \<open>a = x\<close> by simp
      show "0 \<le> y" by (rule y_ge)
      show "x \<le> 0 \<Longrightarrow> y \<le> 0" using True by simp
    qed
  next
    case neg: False
    then have "a = - x" using \<open>x \<noteq> 0\<close> by (simp add: a_def)
    show ?thesis
    proof (rule that [of "- y"])
      show "round64 x = Finite (- y)" using r neg by simp
      have "\<bar>- y - x\<bar> = \<bar>y - a\<bar>" using \<open>a = - x\<close> by simp
      then show "\<bar>- y - x\<bar> \<le> u64 * \<bar>x\<bar> + eta64" using bound \<open>a = - x\<close> neg by simp
      show "- y \<le> 0" using y_ge by simp
      show "0 \<le> x \<Longrightarrow> 0 \<le> - y" using neg \<open>x \<noteq> 0\<close> by simp
    qed
  qed
qed

text \<open>Evaluation of a rounding in the normal range, the exponent given.\<close>

lemma round64_eval:
  assumes "2 powi e \<le> \<bar>x\<bar>" and "\<bar>x\<bar> < 2 powi (e + 1)" and "- 1022 \<le> e" and "e \<le> 1022"
    and "roundTiesToEven (\<bar>x\<bar> / 2 powi (e - 52)) = m"
  shows "round64 x =
    Finite (if 0 < x then of_int m * 2 powi (e - 52) else - (of_int m * 2 powi (e - 52)))"
proof -
  have ex: "exponent \<bar>x\<bar> = e" using assms(1,2) by (rule exponent_unique)
  have pos: "0 < \<bar>x\<bar>" using assms(1) by (rule less_le_trans [rotated]) simp
  then have nz: "x \<noteq> 0" by simp
  have "\<bar>x\<bar> < 2 powi 1023"
  proof -
    have "(2::real) powi (e + 1) \<le> 2 powi 1023"
      using assms(4) by (intro power_int_increasing) simp_all
    with assms(2) show ?thesis by linarith
  qed
  then obtain y where y: "round64 x = Finite y" by (rule round64_finite)
  have mx: "max e (- 1022) = e" using assms(3) by simp
  have "round64 x =
      (if (2::real) powi 1024 \<le> of_int m * 2 powi (e - 52)
       then (if 0 < x then PosInf else NegInf)
       else Finite (if 0 < x then of_int m * 2 powi (e - 52) else - (of_int m * 2 powi (e - 52))))"
    unfolding round64_def Let_def ex mx assms(5) using nz by (simp only: if_False)
  with y show ?thesis by (simp only: split: if_splits) auto
qed

lemma round64_is:
  assumes "2 powi e \<le> \<bar>x\<bar>" and "\<bar>x\<bar> < 2 powi (e + 1)" and "- 1022 \<le> e" and "e \<le> 1022"
    and "roundTiesToEven (\<bar>x\<bar> / 2 powi (e - 52)) = m"
    and "y = (if 0 < x then of_int m * 2 powi (e - 52) else - (of_int m * 2 powi (e - 52)))"
  shows "round64 x = Finite y"
  using round64_eval [OF assms(1-5)] assms(6) by simp

lemma round64_sign:
  assumes "x \<noteq> 0"
  obtains y where "0 \<le> y"
    and "round64 x = (if 2 powi 1024 \<le> y then (if 0 < x then PosInf else NegInf)
                      else Finite (if 0 < x then y else - y))"
    and "2 powi (- 1022) \<le> \<bar>x\<bar> \<Longrightarrow> 0 < y"
proof -
  define a where "a = \<bar>x\<bar>"
  define e where "e = max (exponent a) (- 1022)"
  define q :: real where "q = 2 powi (e - 52)"
  define m where "m = roundTiesToEven (a / q)"
  define y where "y = of_int m * q"
  have a: "0 < a" using assms by (simp add: a_def)
  have q: "0 < q" by (simp add: q_def)
  have "of_int 0 \<le> a / q" using a q by simp
  then have m_ge: "0 \<le> m" unfolding m_def by (rule roundTiesToEven_ge)
  show ?thesis
  proof (rule that [of y])
    show "0 \<le> y" using m_ge q by (simp add: y_def)
    show "round64 x = (if 2 powi 1024 \<le> y then (if 0 < x then PosInf else NegInf)
                      else Finite (if 0 < x then y else - y))"
      using assms
      by (simp add: round64_def Let_def a_def [symmetric] e_def [symmetric]
          q_def [symmetric] m_def [symmetric] y_def [symmetric])
    show "0 < y" if big: "2 powi (- 1022) \<le> \<bar>x\<bar>"
    proof -
      note b = exponent_bounds [OF a]
      have "- 1022 \<le> exponent a"
      proof (rule ccontr)
        assume "\<not> - 1022 \<le> exponent a"
        then have "exponent a + 1 \<le> - 1022" by simp
        then have "(2::real) powi (exponent a + 1) \<le> 2 powi (- 1022)"
          by (intro power_int_increasing) simp_all
        with b(2) big show False by (simp add: a_def)
      qed
      then have ee: "e = exponent a" by (simp add: e_def)
      have "(2::real) powi (e - 52 + 52) = 2 powi (e - 52) * 2 powi 52"
        by (rule power_int_add) simp
      then have "2 powi e = q * 2 powi 52" by (simp add: q_def)
      then have "q * 2 powi 52 \<le> a" using b(1) ee by simp
      moreover have "(1::real) \<le> 2 powi 52" by (rule one_le_power_int) simp_all
      ultimately have "q * 1 \<le> a"
        using q by (meson mult_left_mono less_imp_le order_trans)
      then have "of_int 1 \<le> a / q" using q by (simp add: field_simps)
      then have "1 \<le> m" unfolding m_def by (rule roundTiesToEven_ge)
      then show ?thesis using q by (simp add: y_def)
    qed
  qed
qed

lemma round64_positive: "2 powi (- 1022) \<le> x \<Longrightarrow> fless (Finite 0) (round64 x)"
proof -
  assume big: "2 powi (- 1022) \<le> x"
  have pos: "0 < x" using big by (rule less_le_trans [rotated]) simp
  then have "x \<noteq> 0" by simp
  then obtain y where y: "round64 x = (if 2 powi 1024 \<le> y then (if 0 < x then PosInf else NegInf)
                      else Finite (if 0 < x then y else - y))"
    and "2 powi (- 1022) \<le> \<bar>x\<bar> \<Longrightarrow> 0 < y"
    by (rule round64_sign) blast
  then have "0 < y" using big pos by simp
  then show ?thesis using pos by (simp add: y)
qed

lemma round64_nonpositive: "x \<le> 0 \<Longrightarrow> \<not> fless (Finite 0) (round64 x)"
proof (cases "x = 0")
  case True
  then show ?thesis by (simp add: round64_zero)
next
  case False
  assume "x \<le> 0"
  from False obtain y where "0 \<le> y"
    and y: "round64 x = (if 2 powi 1024 \<le> y then (if 0 < x then PosInf else NegInf)
                      else Finite (if 0 < x then y else - y))"
    by (rule round64_sign) blast
  then show ?thesis using \<open>x \<le> 0\<close> by (simp add: y)
qed

lemma parseFloat_positive: "fless (Finite 0) (parseFloat (Hundredths n)) \<longleftrightarrow> 0 < n"
proof (cases "0 < n")
  case True
  then have "1 \<le> real_of_int n" by simp
  then have "1 / 100 \<le> real_of_int n / 100" by simp
  moreover have "(2::real) powi (- 1022) \<le> 2 powi (- 7)"
    by (intro power_int_increasing) simp_all
  moreover have "(2::real) powi (- 7) \<le> 1 / 100" by simp
  ultimately have "2 powi (- 1022) \<le> real_of_int n / 100" by linarith
  then show ?thesis using True by (simp add: parseFloat_def round64_positive)
next
  case False
  then have "real_of_int n / 100 \<le> 0" by simp
  then show ?thesis using False by (simp add: parseFloat_def round64_nonpositive)
qed


section \<open>Bounds on the roundings of the arithmetic\<close>

text \<open>
  The forward error of the computations: how far the double that a chain of rounded
  operations returns can lie from the value of the same expression in exact arithmetic.
  The bounds are in terms of \<open>u64\<close> times the magnitude \<open>S\<close> of the subtotal and of
  \<open>eta64\<close>.
\<close>

lemma u64_bounds: "0 < u64" "u64 \<le> 1" "u64 * 2 ^ 20 \<le> 1"
proof -
  show "0 < u64" by (simp add: u64_def)
  have "(2::real) powi (- 53) \<le> 2 powi 0" by (intro power_int_increasing) simp_all
  then show "u64 \<le> 1" by (simp add: u64_def)
  have "(2::real) powi (- 53 + 20) = 2 powi (- 53) * 2 powi 20" by (rule power_int_add) simp
  moreover have "(2::real) powi (- 53 + 20) \<le> 2 powi 0" by (intro power_int_increasing) simp_all
  ultimately show "u64 * 2 ^ 20 \<le> 1" by (simp add: u64_def)
qed

lemma eta64_bounds: "0 < eta64" "eta64 * 2 ^ 20 \<le> 1"
proof -
  show "0 < eta64" by (simp add: eta64_def)
  have "(2::real) powi (- 1075 + 20) = 2 powi (- 1075) * 2 powi 20" by (rule power_int_add) simp
  moreover have "(2::real) powi (- 1075 + 20) \<le> 2 powi 0" by (intro power_int_increasing) simp_all
  ultimately show "eta64 * 2 ^ 20 \<le> 1" by (simp add: eta64_def)
qed

text \<open>
  A rounding of a number bounded by \<open>a * S + K\<close>, with \<open>S\<close> up to \<open>2\<^sup>1\<^sup>0\<^sup>0\<^sup>0\<close> and a small
  slack \<open>K\<close>: the result is finite and off by at most \<open>a * (u64 * S) + K + eta64\<close>.
\<close>

lemma round64_bound:
  assumes x: "\<bar>x\<bar> \<le> a * S + K"
    and a: "0 \<le> a" "a \<le> 1000" and K: "0 \<le> K" "K \<le> 1" and S: "0 \<le> S" "S \<le> 2 powi 1000"
  shows "\<exists>y. round64 x = Finite y \<and> \<bar>y - x\<bar> \<le> a * (u64 * S) + K + eta64
    \<and> (0 \<le> x \<longrightarrow> 0 \<le> y) \<and> (x \<le> 0 \<longrightarrow> y \<le> 0)"
proof -
  have "a * S \<le> 1000 * 2 powi 1000"
    using a S by (intro mult_mono) simp_all
  also have "\<dots> \<le> 2 powi 10 * 2 powi 1000" by simp
  also have "\<dots> = 2 powi (10 + 1000)" by (rule power_int_add [symmetric]) simp
  finally have aS: "a * S \<le> 2 powi 1010" by simp
  have "(1::real) \<le> 2 powi 1010" by (rule one_le_power_int) simp_all
  with K have "K \<le> 2 powi 1010" by linarith
  with aS x have "\<bar>x\<bar> \<le> 2 * 2 powi 1010" by linarith
  also have "\<dots> = 2 powi (1 + 1010)" by (simp add: power_int_add)
  also have "\<dots> < 2 powi 1023" by (intro power_int_strict_increasing) simp_all
  finally have "\<bar>x\<bar> < 2 powi 1023" .
  then obtain y where y: "round64 x = Finite y" "\<bar>y - x\<bar> \<le> u64 * \<bar>x\<bar> + eta64"
    "0 \<le> x \<Longrightarrow> 0 \<le> y" "x \<le> 0 \<Longrightarrow> y \<le> 0"
    by (rule round64_finite) blast
  have "u64 * \<bar>x\<bar> \<le> u64 * (a * S + K)"
    using x u64_bounds(1) by (intro mult_left_mono) simp_all
  also have "\<dots> = a * (u64 * S) + u64 * K" by (simp add: algebra_simps)
  also have "u64 * K \<le> 1 * K" using u64_bounds(2) K(1) by (intro mult_right_mono)
  finally have "u64 * \<bar>x\<bar> \<le> a * (u64 * S) + K" by simp
  with y(2) have "\<bar>y - x\<bar> \<le> a * (u64 * S) + K + eta64" by linarith
  with y(1,3,4) show ?thesis by blast
qed

text \<open>
  A percentage of \<open>x\<close>, \<^verbatim>\<open>(x * p) / 100\<close>: off by at most \<open>6 * (u64 * S) + 3 * K + 3 * eta64\<close>
  from the exact one, for \<open>\<bar>x\<bar> \<le> 2 * S + K\<close>.
\<close>

lemma percent_bound:
  assumes x: "\<bar>x\<bar> \<le> 2 * S + K" and K: "0 \<le> K" "K \<le> 1 / 1000"
    and S: "0 \<le> S" "S \<le> 2 powi 1000" and p: "0 \<le> p" "p \<le> 100"
  shows "\<exists>f. fdiv (fmul (Finite x) (Finite p)) 100 = Finite f
    \<and> \<bar>f - x * p / 100\<bar> \<le> 6 * (u64 * S) + 3 * K + 3 * eta64
    \<and> (0 \<le> x \<longrightarrow> 0 \<le> f) \<and> (x \<le> 0 \<longrightarrow> f \<le> 0)"
proof -
  define W where "W = u64 * S"
  have W: "0 \<le> W" "W \<le> S"
  proof -
    show "0 \<le> W" using u64_bounds(1) S(1) by (simp add: W_def)
    have "u64 * S \<le> 1 * S" using u64_bounds(2) S(1) by (intro mult_right_mono)
    then show "W \<le> S" by (simp add: W_def)
  qed
  have H: "0 < eta64" "eta64 \<le> 1 / 1000"
  proof -
    show "0 < eta64" by (rule eta64_bounds)
    have "eta64 * 1000 \<le> eta64 * 2 ^ 20" using eta64_bounds(1) by (intro mult_left_mono) simp_all
    with eta64_bounds(2) show "eta64 \<le> 1 / 1000" by simp
  qed
  have "\<bar>x * p\<bar> = \<bar>x\<bar> * p" using p(1) by (simp add: abs_mult)
  also have "\<dots> \<le> \<bar>x\<bar> * 100" using p(2) by (intro mult_left_mono) simp_all
  finally have p1: "\<bar>x * p\<bar> \<le> 200 * S + 100 * K" using x by linarith
  have "\<exists>e. round64 (x * p) = Finite e \<and> \<bar>e - x * p\<bar> \<le> 200 * (u64 * S) + 100 * K + eta64
      \<and> (0 \<le> x * p \<longrightarrow> 0 \<le> e) \<and> (x * p \<le> 0 \<longrightarrow> e \<le> 0)"
    by (rule round64_bound) (use p1 S K in simp_all)
  then obtain e where e: "round64 (x * p) = Finite e"
    and e_err: "\<bar>e - x * p\<bar> \<le> 200 * (u64 * S) + 100 * K + eta64"
    and e_sign: "0 \<le> x * p \<longrightarrow> 0 \<le> e" "x * p \<le> 0 \<longrightarrow> e \<le> 0"
    by blast
  have "\<bar>e\<bar> \<le> \<bar>x * p\<bar> + \<bar>e - x * p\<bar>" by linarith
  with p1 e_err W have e_abs: "\<bar>e\<bar> \<le> 400 * S + (200 * K + eta64)"
    unfolding W_def by linarith
  then have p2: "\<bar>e / 100\<bar> \<le> 4 * S + (2 * K + eta64)" using H(1) by simp
  have "\<exists>f. round64 (e / 100) = Finite f
      \<and> \<bar>f - e / 100\<bar> \<le> 4 * (u64 * S) + (2 * K + eta64) + eta64
      \<and> (0 \<le> e / 100 \<longrightarrow> 0 \<le> f) \<and> (e / 100 \<le> 0 \<longrightarrow> f \<le> 0)"
    by (rule round64_bound) (use p2 S K H in simp_all)
  then obtain f where f: "round64 (e / 100) = Finite f"
    and f_err: "\<bar>f - e / 100\<bar> \<le> 4 * (u64 * S) + (2 * K + eta64) + eta64"
    and f_sign: "0 \<le> e / 100 \<longrightarrow> 0 \<le> f" "e / 100 \<le> 0 \<longrightarrow> f \<le> 0"
    by blast
  have up: "0 \<le> x \<longrightarrow> 0 \<le> f"
    using e_sign(1) f_sign(1) p(1) by (simp add: zero_le_mult_iff)
  have down: "x \<le> 0 \<longrightarrow> f \<le> 0"
    using e_sign(2) f_sign(2) p(1) by (simp add: mult_le_0_iff)
  have "f - x * p / 100 = (f - e / 100) + (e - x * p) / 100" by (simp add: diff_divide_distrib)
  then have "\<bar>f - x * p / 100\<bar> \<le> \<bar>f - e / 100\<bar> + \<bar>e - x * p\<bar> / 100" by linarith
  with f_err e_err H(1) have "\<bar>f - x * p / 100\<bar> \<le> 6 * (u64 * S) + 3 * K + 3 * eta64"
    by linarith
  moreover have "fdiv (fmul (Finite x) (Finite p)) 100 = Finite f"
    by (simp add: e f)
  ultimately show ?thesis using up down by blast
qed

lemma roundoff_small:
  assumes "0 \<le> S"
  shows "0 \<le> u64 * S" and "16 * (u64 * S) \<le> S"
proof -
  show "0 \<le> u64 * S" using u64_bounds(1) assms by simp
  have "16 * u64 \<le> u64 * 2 ^ 20" using u64_bounds(1) by simp
  with u64_bounds(3) have "16 * u64 \<le> 1" by linarith
  then have "16 * u64 * S \<le> 1 * S" using assms by (intro mult_right_mono)
  then show "16 * (u64 * S) \<le> S" by simp
qed

lemma eta64_small: "0 < eta64" "1000 * eta64 \<le> 1 / 1000"
proof -
  show "0 < eta64" by (rule eta64_bounds)
  have "eta64 * 1000000 \<le> eta64 * 2 ^ 20" using eta64_bounds(1) by (intro mult_left_mono) simp_all
  with eta64_bounds(2) show "1000 * eta64 \<le> 1 / 1000" by simp
qed

lemma eta64_tiny: "1200 * eta64 \<le> 2 powi (- 1000)"
proof -
  have "1200 * eta64 \<le> 2 powi 11 * eta64" using eta64_bounds(1) by (intro mult_right_mono) simp_all
  also have "\<dots> = 2 powi (11 + - 1075)" unfolding eta64_def by (rule power_int_add [symmetric]) simp
  also have "\<dots> \<le> 2 powi (- 1000)" by (intro power_int_increasing) simp_all
  finally show ?thesis .
qed

lemma roundoff_tiny:
  assumes "0 \<le> S"
  shows "2400 * (u64 * S) \<le> S"
proof -
  have "2400 * u64 \<le> u64 * 2 ^ 20" using u64_bounds(1) by simp
  with u64_bounds(3) have "2400 * u64 \<le> 1" by linarith
  then have "2400 * u64 * S \<le> 1 * S" using assms by (intro mult_right_mono)
  then show ?thesis by simp
qed

lemma percent_abs:
  fixes x p :: real
  assumes "0 \<le> p" "p \<le> 100"
  shows "\<bar>x * p / 100\<bar> \<le> \<bar>x\<bar>"
proof -
  have "x * p / 100 = x * (p / 100)" by simp
  then have "\<bar>x * p / 100\<bar> = \<bar>x\<bar> * \<bar>p / 100\<bar>" by (simp only: abs_mult)
  also have "\<bar>p / 100\<bar> = p / 100" using assms(1) by simp
  also have "\<bar>x\<bar> * (p / 100) \<le> \<bar>x\<bar> * 1" using assms(2) by (intro mult_left_mono) simp_all
  finally show ?thesis by simp
qed

lemma discounted_abs:
  fixes s d :: real
  assumes "0 \<le> d" "d \<le> 100"
  shows "\<bar>s - s * d / 100\<bar> \<le> \<bar>s\<bar>"
proof -
  have "s - s * d / 100 = s * (100 - d) / 100" by (simp add: field_simps)
  moreover have "\<bar>s * (100 - d) / 100\<bar> \<le> \<bar>s\<bar>"
    by (rule percent_abs) (use assms in simp_all)
  ultimately show ?thesis by simp
qed

text \<open>The amount after the discount, \<^verbatim>\<open>subtotal - (subtotal * discount) / 100\<close>.\<close>

lemma taxable_bound:
  assumes s: "\<bar>s\<bar> \<le> 2 powi 1000" and d: "0 \<le> d" "d \<le> 100"
  shows "\<exists>c. fsub (Finite s) (fdiv (fmul (Finite s) (Finite d)) 100) = Finite c
    \<and> \<bar>c - (s - s * d / 100)\<bar> \<le> 9 * (u64 * \<bar>s\<bar>) + 7 * eta64
    \<and> (0 \<le> s \<and> d \<le> 99 \<and> (s = 0 \<or> 2 powi (- 1000) \<le> s) \<longrightarrow> 0 \<le> c)"
proof -
  define S where "S = \<bar>s\<bar>"
  have S: "0 \<le> S" "S \<le> 2 powi 1000" using s by (simp_all add: S_def)
  note W = roundoff_small [OF S(1)]
  note H = eta64_small
  have "\<exists>b. fdiv (fmul (Finite s) (Finite d)) 100 = Finite b
      \<and> \<bar>b - s * d / 100\<bar> \<le> 6 * (u64 * S) + 3 * 0 + 3 * eta64
      \<and> (0 \<le> s \<longrightarrow> 0 \<le> b) \<and> (s \<le> 0 \<longrightarrow> b \<le> 0)"
    by (rule percent_bound) (use S d in \<open>simp_all add: S_def\<close>)
  then obtain b where b: "fdiv (fmul (Finite s) (Finite d)) 100 = Finite b"
    and b_err: "\<bar>b - s * d / 100\<bar> \<le> 6 * (u64 * S) + 3 * eta64"
    and b_sign: "0 \<le> s \<longrightarrow> 0 \<le> b" "s \<le> 0 \<longrightarrow> b \<le> 0"
    by auto
  have pa: "\<bar>s * d / 100\<bar> \<le> S" unfolding S_def using d by (rule percent_abs)
  have "\<bar>s - b\<bar> \<le> \<bar>s\<bar> + \<bar>s * d / 100\<bar> + \<bar>b - s * d / 100\<bar>" by linarith
  with pa b_err W have sb: "\<bar>s - b\<bar> \<le> 3 * S + 3 * eta64" unfolding S_def by linarith
  have "\<exists>c. round64 (s - b) = Finite c \<and> \<bar>c - (s - b)\<bar> \<le> 3 * (u64 * S) + 3 * eta64 + eta64
      \<and> (0 \<le> s - b \<longrightarrow> 0 \<le> c) \<and> (s - b \<le> 0 \<longrightarrow> c \<le> 0)"
    by (rule round64_bound) (use sb S H in simp_all)
  then obtain c where c: "round64 (s - b) = Finite c"
    and c_err: "\<bar>c - (s - b)\<bar> \<le> 3 * (u64 * S) + 3 * eta64 + eta64"
    and c_sign: "0 \<le> s - b \<longrightarrow> 0 \<le> c"
    by blast
  have "\<bar>c - (s - s * d / 100)\<bar> \<le> \<bar>c - (s - b)\<bar> + \<bar>b - s * d / 100\<bar>" by linarith
  with c_err b_err have "\<bar>c - (s - s * d / 100)\<bar> \<le> 9 * (u64 * S) + 7 * eta64" by linarith
  moreover have "fsub (Finite s) (fdiv (fmul (Finite s) (Finite d)) 100) = Finite c"
    by (simp only: b fsub.simps c)
  moreover have "0 \<le> c" if "0 \<le> s" "d \<le> 99" "s = 0 \<or> 2 powi (- 1000) \<le> s"
  proof -
    have "b \<le> s"
    proof (cases "s = 0")
      case True
      then show ?thesis using b_sign by simp
    next
      case False
      with that(3) have big: "2 powi (- 1000) \<le> s" by simp
      have Ss: "S = s" using that(1) by (simp add: S_def)
      have "s * d \<le> s * 99" using that(1,2) by (intro mult_left_mono)
      then have "s * d / 100 \<le> 99 * s / 100" by simp
      moreover have "2400 * (u64 * S) \<le> S" using S(1) by (rule roundoff_tiny)
      moreover have "1200 * eta64 \<le> s" using eta64_tiny big by linarith
      ultimately show ?thesis using b_err Ss by linarith
    qed
    then show ?thesis using c_sign by simp
  qed
  ultimately show ?thesis unfolding S_def by blast
qed

lemma total_bound:
  assumes s: "\<bar>s\<bar> \<le> 2 powi 1000" and d: "0 \<le> d" "d \<le> 100" and t: "0 \<le> t" "t \<le> 100"
  shows "\<exists>r. calculateInvoiceTotal (Finite s) (Finite d) (Finite t) = Finite r
    \<and> \<bar>r - totalFormula s d t\<bar> \<le> 28 * (u64 * \<bar>s\<bar>) + 77 * eta64
    \<and> (0 \<le> s \<and> d \<le> 99 \<and> (s = 0 \<or> 2 powi (- 1000) \<le> s) \<longrightarrow> 0 \<le> r)"
proof -
  define S where "S = \<bar>s\<bar>"
  define T where "T = s - s * d / 100"
  have S: "0 \<le> S" "S \<le> 2 powi 1000" using s by (simp_all add: S_def)
  note W = roundoff_small [OF S(1)]
  note H = eta64_small
  obtain c where c: "fsub (Finite s) (fdiv (fmul (Finite s) (Finite d)) 100) = Finite c"
    and c_err: "\<bar>c - T\<bar> \<le> 9 * (u64 * S) + 7 * eta64"
    and c_sign: "0 \<le> s \<and> d \<le> 99 \<and> (s = 0 \<or> 2 powi (- 1000) \<le> s) \<longrightarrow> 0 \<le> c"
    using taxable_bound [OF s d] unfolding S_def T_def by blast
  have T_abs: "\<bar>T\<bar> \<le> S"
    unfolding T_def S_def using d by (rule discounted_abs)
  have "\<bar>c\<bar> \<le> \<bar>T\<bar> + \<bar>c - T\<bar>" by linarith
  with T_abs c_err W have c_abs: "\<bar>c\<bar> \<le> 2 * S + 7 * eta64" by linarith
  have "\<exists>f. fdiv (fmul (Finite c) (Finite t)) 100 = Finite f
      \<and> \<bar>f - c * t / 100\<bar> \<le> 6 * (u64 * S) + 3 * (7 * eta64) + 3 * eta64
      \<and> (0 \<le> c \<longrightarrow> 0 \<le> f) \<and> (c \<le> 0 \<longrightarrow> f \<le> 0)"
    by (rule percent_bound) (use c_abs S t H in simp_all)
  then obtain f where f: "fdiv (fmul (Finite c) (Finite t)) 100 = Finite f"
    and f_err: "\<bar>f - c * t / 100\<bar> \<le> 6 * (u64 * S) + 24 * eta64"
    and f_sign: "0 \<le> c \<longrightarrow> 0 \<le> f"
    by auto
  have "\<bar>c * t / 100 - T * t / 100\<bar> = \<bar>(c - T) * t / 100\<bar>" by (simp add: algebra_simps diff_divide_distrib)
  also have "\<dots> \<le> \<bar>c - T\<bar>" using t by (rule percent_abs)
  finally have ct: "\<bar>c * t / 100 - T * t / 100\<bar> \<le> \<bar>c - T\<bar>" .
  have Tt: "\<bar>T * t / 100\<bar> \<le> S" using percent_abs [OF t, of T] T_abs by linarith
  have f_T: "\<bar>f - T * t / 100\<bar> \<le> 15 * (u64 * S) + 31 * eta64"
    using f_err ct c_err by linarith
  have "\<bar>c + f\<bar> \<le> \<bar>c\<bar> + \<bar>T * t / 100\<bar> + \<bar>f - T * t / 100\<bar>" by linarith
  with c_abs Tt f_T W have cf: "\<bar>c + f\<bar> \<le> 4 * S + 38 * eta64" by linarith
  have "\<exists>r. round64 (c + f) = Finite r \<and> \<bar>r - (c + f)\<bar> \<le> 4 * (u64 * S) + 38 * eta64 + eta64
      \<and> (0 \<le> c + f \<longrightarrow> 0 \<le> r) \<and> (c + f \<le> 0 \<longrightarrow> r \<le> 0)"
    by (rule round64_bound) (use cf S H in simp_all)
  then obtain r where r: "round64 (c + f) = Finite r"
    and r_err: "\<bar>r - (c + f)\<bar> \<le> 4 * (u64 * S) + 39 * eta64"
    and r_sign: "0 \<le> c + f \<longrightarrow> 0 \<le> r"
    by auto
  have nonneg: "0 \<le> s \<and> d \<le> 99 \<and> (s = 0 \<or> 2 powi (- 1000) \<le> s) \<longrightarrow> 0 \<le> r"
    using c_sign f_sign r_sign by auto
  have formula: "totalFormula s d t = T + T * t / 100"
    by (simp add: totalFormula_def T_def field_simps)
  have "\<bar>r - (T + T * t / 100)\<bar> \<le> \<bar>r - (c + f)\<bar> + \<bar>c - T\<bar> + \<bar>f - T * t / 100\<bar>" by linarith
  with r_err c_err f_T have "\<bar>r - totalFormula s d t\<bar> \<le> 28 * (u64 * S) + 77 * eta64"
    unfolding formula by linarith
  moreover have "calculateInvoiceTotal (Finite s) (Finite d) (Finite t) = Finite r"
    by (simp only: calculateInvoiceTotal_def Let_def c f fadd.simps r)
  ultimately show ?thesis using nonneg unfolding S_def by blast
qed

lemma raw_bound:
  assumes s: "\<bar>s\<bar> \<le> 2 powi 1000" and d: "0 \<le> d" "d \<le> 100" and t: "0 \<le> t" "t \<le> 100"
  shows "\<exists>r. taxOnRawSubtotal (Finite s) (Finite d) (Finite t) = Finite r
    \<and> \<bar>r - (s - s * d / 100 + s * t / 100)\<bar> \<le> 19 * (u64 * \<bar>s\<bar>) + 21 * eta64"
proof -
  define S where "S = \<bar>s\<bar>"
  define T where "T = s - s * d / 100"
  have S: "0 \<le> S" "S \<le> 2 powi 1000" using s by (simp_all add: S_def)
  note W = roundoff_small [OF S(1)]
  note H = eta64_small
  obtain c where c: "fsub (Finite s) (fdiv (fmul (Finite s) (Finite d)) 100) = Finite c"
    and c_err: "\<bar>c - T\<bar> \<le> 9 * (u64 * S) + 7 * eta64"
    using taxable_bound [OF s d] unfolding S_def T_def by blast
  have T_abs: "\<bar>T\<bar> \<le> S"
    unfolding T_def S_def using d by (rule discounted_abs)
  have "\<bar>c\<bar> \<le> \<bar>T\<bar> + \<bar>c - T\<bar>" by linarith
  with T_abs c_err W have c_abs: "\<bar>c\<bar> \<le> 2 * S + 7 * eta64" by linarith
  have "\<exists>g. fdiv (fmul (Finite s) (Finite t)) 100 = Finite g
      \<and> \<bar>g - s * t / 100\<bar> \<le> 6 * (u64 * S) + 3 * 0 + 3 * eta64
      \<and> (0 \<le> s \<longrightarrow> 0 \<le> g) \<and> (s \<le> 0 \<longrightarrow> g \<le> 0)"
    by (rule percent_bound) (use S t in \<open>simp_all add: S_def\<close>)
  then obtain g where g: "fdiv (fmul (Finite s) (Finite t)) 100 = Finite g"
    and g_err: "\<bar>g - s * t / 100\<bar> \<le> 6 * (u64 * S) + 3 * eta64"
    by auto
  have st: "\<bar>s * t / 100\<bar> \<le> S" unfolding S_def using t by (rule percent_abs)
  have "\<bar>c + g\<bar> \<le> \<bar>c\<bar> + \<bar>s * t / 100\<bar> + \<bar>g - s * t / 100\<bar>" by linarith
  with c_abs st g_err W have cg: "\<bar>c + g\<bar> \<le> 4 * S + 10 * eta64" by linarith
  have "\<exists>r. round64 (c + g) = Finite r \<and> \<bar>r - (c + g)\<bar> \<le> 4 * (u64 * S) + 10 * eta64 + eta64
      \<and> (0 \<le> c + g \<longrightarrow> 0 \<le> r) \<and> (c + g \<le> 0 \<longrightarrow> r \<le> 0)"
    by (rule round64_bound) (use cg S H in simp_all)
  then obtain r where r: "round64 (c + g) = Finite r"
    and r_err: "\<bar>r - (c + g)\<bar> \<le> 4 * (u64 * S) + 11 * eta64"
    by auto
  have "\<bar>r - (T + s * t / 100)\<bar> \<le> \<bar>r - (c + g)\<bar> + \<bar>c - T\<bar> + \<bar>g - s * t / 100\<bar>" by linarith
  with r_err c_err g_err have "\<bar>r - (s - s * d / 100 + s * t / 100)\<bar> \<le> 19 * (u64 * S) + 21 * eta64"
    unfolding T_def by linarith
  moreover have "taxOnRawSubtotal (Finite s) (Finite d) (Finite t) = Finite r"
    by (simp only: taxOnRawSubtotal_def c g fadd.simps r)
  ultimately show ?thesis unfolding S_def by blast
qed

section \<open>Properties of the arithmetic\<close>

lemma small_powers:
  "(2::real) powi (- 1000) \<le> 1" "(1024::real) \<le> 2 powi 1000" "(2::real) powi (- 30) \<le> 1"
proof -
  have "(2::real) powi (- 1000) \<le> 2 powi 0" by (intro power_int_increasing) simp_all
  then show "(2::real) powi (- 1000) \<le> 1" by simp
  have "(2::real) powi 10 \<le> 2 powi 1000" by (intro power_int_increasing) simp_all
  then show "(1024::real) \<le> 2 powi 1000" by simp
  have "(2::real) powi (- 30) \<le> 2 powi 0" by (intro power_int_increasing) simp_all
  then show "(2::real) powi (- 30) \<le> 1" by simp
qed

text \<open>
  The exact values of the two computations differ by subtotal times discount times tax
  over 10000.
\<close>

lemma ordering_gap:
  "(s - s * d / 100 + s * t / 100) - totalFormula s d t = s * d * t / 10000"
  by (simp add: totalFormula_def field_simps)

text \<open>
  The roundings of both computations together stay below \<open>2\<^sup>-\<^sup>4\<^sup>6\<close> times the subtotal.
\<close>

lemma roundings_below_gap:
  assumes S: "2 powi (- 1000) \<le> S"
  shows "47 * (u64 * S) + 98 * eta64 \<le> 2 * 2 powi (- 47) * S"
    and "2 * 2 powi (- 47) * 10000 < (2::real) powi (- 30)"
proof -
  have S0: "0 < S"
  proof -
    have "(0::real) < 2 powi (- 1000)" by simp
    with S show ?thesis by linarith
  qed
  have "47 * u64 \<le> 2 powi 6 * u64" using u64_bounds(1) by (intro mult_right_mono) simp_all
  also have "\<dots> = 2 powi (6 + - 53)" unfolding u64_def by (rule power_int_add [symmetric]) simp
  finally have "47 * u64 \<le> 2 powi (- 47)" by simp
  then have "47 * u64 * S \<le> 2 powi (- 47) * S" using S0 by (intro mult_right_mono) simp_all
  then have a: "47 * (u64 * S) \<le> 2 powi (- 47) * S" by (simp add: mult.assoc)
  have "98 * eta64 \<le> 2 powi 7 * eta64" using eta64_bounds(1) by (intro mult_right_mono) simp_all
  also have "\<dots> = 2 powi (7 + - 1075)" unfolding eta64_def by (rule power_int_add [symmetric]) simp
  also have "\<dots> \<le> 2 powi (- 47 + - 1000)" by (intro power_int_increasing) simp_all
  also have "\<dots> = 2 powi (- 47) * 2 powi (- 1000)" by (rule power_int_add) simp
  also have "\<dots> \<le> 2 powi (- 47) * S" using S by (intro mult_left_mono) simp_all
  finally have b: "98 * eta64 \<le> 2 powi (- 47) * S" .
  from a b show "47 * (u64 * S) + 98 * eta64 \<le> 2 * 2 powi (- 47) * S" by linarith
  have "2 * 2 powi (- 47) * 10000 \<le> 2 powi (- 47) * (2::real) powi 15" by simp
  also have "\<dots> = 2 powi (- 47 + 15)" by (rule power_int_add [symmetric]) simp
  also have "\<dots> < 2 powi (- 30)" by (intro power_int_strict_increasing) simp_all
  finally show "2 * 2 powi (- 47) * 10000 < (2::real) powi (- 30)" .
qed




text \<open>
  C7, as stated, at two inputs with a positive discount and a positive tax. At subtotal 0,
  discount 10 and tax 5, both computations return 0. At subtotal 100 with discount and
  tax both \<open>2\<^sup>-\<^sup>3\<^sup>0\<close>, both return 100: the amounts are lost in the roundings.
\<close>

theorem ordering_counterexample:
  "(0::real) < 10 \<and> (0::real) < 5
   \<and> taxOnRawSubtotal (Finite 0) (Finite 10) (Finite 5) = Finite 0
   \<and> calculateInvoiceTotal (Finite 0) (Finite 10) (Finite 5) = Finite 0
   \<and> (0::real) < 1 / 1073741824
   \<and> taxOnRawSubtotal (Finite 100) (Finite (1 / 1073741824)) (Finite (1 / 1073741824)) = Finite 100
   \<and> calculateInvoiceTotal (Finite 100) (Finite (1 / 1073741824)) (Finite (1 / 1073741824)) = Finite 100"
proof -
  have a1: "fmul (Finite 0) (Finite 10) = Finite 0"
    by (simp add: round64_zero)
  have a2: "fdiv (Finite 0) 100 = Finite 0"
    by (simp add: round64_zero)
  have a3: "fsub (Finite 0) (Finite 0) = Finite 0"
    by (simp add: round64_zero)
  have a4: "fmul (Finite 0) (Finite 5) = Finite 0"
    by (simp add: round64_zero)
  have a5: "fdiv (Finite 0) 100 = Finite 0"
    by (simp add: round64_zero)
  have a6: "fadd (Finite 0) (Finite 0) = Finite 0"
    by (simp add: round64_zero)
  have c1: "fmul (Finite 100) (Finite (1 / 1073741824)) = Finite (25 / 268435456)"
    by (simp only: fmul.simps, rule round64_is [where e = "- 24" and m = 7036874417766400])
      (simp_all add: roundTiesToEven_def)
  have c2: "fdiv (Finite (25 / 268435456)) 100 = Finite (1 / 1073741824)"
    by (simp only: fdiv.simps, rule round64_is [where e = "- 30" and m = 4503599627370496])
      (simp_all add: roundTiesToEven_def)
  have c3: "fsub (Finite 100) (Finite (1 / 1073741824)) = Finite (107374182399 / 1073741824)"
    by (simp only: fsub.simps, rule round64_is [where e = "6" and m = 7036874417700864])
      (simp_all add: roundTiesToEven_def)
  have c4: "fmul (Finite (107374182399 / 1073741824)) (Finite (1 / 1073741824)) = Finite (107374182399 / 1152921504606846976)"
    by (simp only: fmul.simps, rule round64_is [where e = "- 24" and m = 7036874417700864])
      (simp_all add: roundTiesToEven_def)
  have c5: "fdiv (Finite (107374182399 / 1152921504606846976)) 100 = Finite (4503599627328553 / 4835703278458516698824704)"
    by (simp only: fdiv.simps, rule round64_is [where e = "- 31" and m = 9007199254657106])
      (simp_all add: roundTiesToEven_def)
  have c6: "fadd (Finite (107374182399 / 1073741824)) (Finite (4503599627328553 / 4835703278458516698824704)) = Finite 100"
    by (simp only: fadd.simps, rule round64_is [where e = "6" and m = 7036874417766400])
      (simp_all add: roundTiesToEven_def)
  have d6: "fadd (Finite (107374182399 / 1073741824)) (Finite (1 / 1073741824)) = Finite 100"
    by (simp only: fadd.simps, rule round64_is [where e = "6" and m = 7036874417766400])
      (simp_all add: roundTiesToEven_def)
  have "calculateInvoiceTotal (Finite 0) (Finite 10) (Finite 5) = Finite 0"
    by (simp only: calculateInvoiceTotal_def Let_def a1 a5 a3 a4 a6)
  moreover have "taxOnRawSubtotal (Finite 0) (Finite 10) (Finite 5) = Finite 0"
    by (simp only: taxOnRawSubtotal_def a1 a5 a3 a4 a6)
  moreover have "calculateInvoiceTotal (Finite 100) (Finite (1 / 1073741824)) (Finite (1 / 1073741824)) = Finite 100"
    by (simp only: calculateInvoiceTotal_def Let_def c1 c2 c3 c4 c5 c6)
  moreover have "taxOnRawSubtotal (Finite 100) (Finite (1 / 1073741824)) (Finite (1 / 1073741824)) = Finite 100"
    by (simp only: taxOnRawSubtotal_def c1 c2 c3 d6)
  ultimately show ?thesis by simp
qed

text \<open>
  C7, amended. For a subtotal of magnitude from \<open>2\<^sup>-\<^sup>1\<^sup>0\<^sup>0\<^sup>0\<close> to \<open>2\<^sup>1\<^sup>0\<^sup>0\<^sup>0\<close> and a discount and a
  tax above 0 and up to 100 whose product is at least \<open>2\<^sup>-\<^sup>3\<^sup>0\<close>, the tax taken on the raw
  subtotal gives another double than the total: the exact values differ by subtotal times
  discount times tax over 10000, which is more than all the roundings of the two
  computations.
\<close>

theorem ordering_observable:
  assumes "2 powi (- 1000) \<le> \<bar>s\<bar>" and "\<bar>s\<bar> \<le> 2 powi 1000"
    and "0 < d" and "d \<le> 100" and "0 < t" and "t \<le> 100" and "2 powi (- 30) \<le> d * t"
  shows "taxOnRawSubtotal (Finite s) (Finite d) (Finite t)
    \<noteq> calculateInvoiceTotal (Finite s) (Finite d) (Finite t)"
proof
  assume eq: "taxOnRawSubtotal (Finite s) (Finite d) (Finite t)
    = calculateInvoiceTotal (Finite s) (Finite d) (Finite t)"
  define S where "S = \<bar>s\<bar>"
  have d: "0 \<le> d" "d \<le> 100" and t: "0 \<le> t" "t \<le> 100" using assms by simp_all
  obtain r where r: "calculateInvoiceTotal (Finite s) (Finite d) (Finite t) = Finite r"
    and r_err: "\<bar>r - totalFormula s d t\<bar> \<le> 28 * (u64 * S) + 77 * eta64"
    using total_bound [OF assms(2) d t] unfolding S_def by blast
  obtain r' where r': "taxOnRawSubtotal (Finite s) (Finite d) (Finite t) = Finite r'"
    and r'_err: "\<bar>r' - (s - s * d / 100 + s * t / 100)\<bar> \<le> 19 * (u64 * S) + 21 * eta64"
    using raw_bound [OF assms(2) d t] unfolding S_def by blast
  have same: "r' = r" using eq r r' by simp
  have "\<bar>s * d * t / 10000\<bar> = \<bar>(s - s * d / 100 + s * t / 100) - totalFormula s d t\<bar>"
    by (simp only: ordering_gap)
  also have "\<dots> \<le> \<bar>r - totalFormula s d t\<bar> + \<bar>r' - (s - s * d / 100 + s * t / 100)\<bar>"
    unfolding same by linarith
  also have "\<dots> \<le> 47 * (u64 * S) + 98 * eta64" using r_err r'_err by linarith
  also have "\<dots> \<le> 2 * 2 powi (- 47) * S"
    using assms(1) unfolding S_def by (rule roundings_below_gap(1))
  finally have upper: "\<bar>s * d * t / 10000\<bar> \<le> 2 * 2 powi (- 47) * S" .
  have S0: "0 < S"
  proof -
    have "(0::real) < 2 powi (- 1000)" by simp
    with assms(1) show ?thesis unfolding S_def by linarith
  qed
  have "2 * 2 powi (- 47) * 10000 < d * t"
    using roundings_below_gap(2) [OF assms(1)] assms(7) by linarith
  then have "2 * 2 powi (- 47) < d * t / 10000" by simp
  then have "2 * 2 powi (- 47) * S < d * t / 10000 * S" using S0 by (rule mult_strict_right_mono)
  also have "\<dots> = \<bar>s * d * t / 10000\<bar>"
    using assms(3,5) unfolding S_def by (simp add: abs_mult)
  finally show False using upper by linarith
qed

theorem ordering_observable_witness:
  "taxOnRawSubtotal (Finite 125) (Finite 10) (Finite 5) = Finite (475 / 4)
   \<and> calculateInvoiceTotal (Finite 125) (Finite 10) (Finite 5) = Finite (945 / 8)
   \<and> taxOnRawSubtotal (Finite 125) (Finite 10) (Finite 5)
       \<noteq> calculateInvoiceTotal (Finite 125) (Finite 10) (Finite 5)"
proof -
  have a1: "fmul (Finite 125) (Finite 10) = Finite 1250"
    by (simp only: fmul.simps, rule round64_is [where e = "10" and m = 5497558138880000])
      (simp_all add: roundTiesToEven_def)
  have a2: "fdiv (Finite 1250) 100 = Finite (25 / 2)"
    by (simp only: fdiv.simps, rule round64_is [where e = "3" and m = 7036874417766400])
      (simp_all add: roundTiesToEven_def)
  have a3: "fsub (Finite 125) (Finite (25 / 2)) = Finite (225 / 2)"
    by (simp only: fsub.simps, rule round64_is [where e = "6" and m = 7916483719987200])
      (simp_all add: roundTiesToEven_def)
  have a4: "fmul (Finite (225 / 2)) (Finite 5) = Finite (1125 / 2)"
    by (simp only: fmul.simps, rule round64_is [where e = "9" and m = 4947802324992000])
      (simp_all add: roundTiesToEven_def)
  have a5: "fdiv (Finite (1125 / 2)) 100 = Finite (45 / 8)"
    by (simp only: fdiv.simps, rule round64_is [where e = "2" and m = 6333186975989760])
      (simp_all add: roundTiesToEven_def)
  have a6: "fadd (Finite (225 / 2)) (Finite (45 / 8)) = Finite (945 / 8)"
    by (simp only: fadd.simps, rule round64_is [where e = "6" and m = 8312307905986560])
      (simp_all add: roundTiesToEven_def)
  have b4: "fmul (Finite 125) (Finite 5) = Finite 625"
    by (simp only: fmul.simps, rule round64_is [where e = "9" and m = 5497558138880000])
      (simp_all add: roundTiesToEven_def)
  have b5: "fdiv (Finite 625) 100 = Finite (25 / 4)"
    by (simp only: fdiv.simps, rule round64_is [where e = "2" and m = 7036874417766400])
      (simp_all add: roundTiesToEven_def)
  have b6: "fadd (Finite (225 / 2)) (Finite (25 / 4)) = Finite (475 / 4)"
    by (simp only: fadd.simps, rule round64_is [where e = "6" and m = 8356288371097600])
      (simp_all add: roundTiesToEven_def)
  have v: "calculateInvoiceTotal (Finite 125) (Finite 10) (Finite 5) = Finite (945 / 8)"
    by (simp only: calculateInvoiceTotal_def Let_def a1 a2 a3 a4 a5 a6)
  have w: "taxOnRawSubtotal (Finite 125) (Finite 10) (Finite 5) = Finite (475 / 4)"
    by (simp only: taxOnRawSubtotal_def a1 a2 a3 b4 b5 b6)
  have lo: "2 powi (- 1000) \<le> \<bar>125::real\<bar>" using small_powers(1) by simp
  have hi: "\<bar>125::real\<bar> \<le> 2 powi 1000" using small_powers(2) by simp
  have pr: "2 powi (- 30) \<le> (10::real) * 5" using small_powers(3) by simp
  have "taxOnRawSubtotal (Finite 125) (Finite 10) (Finite 5)
      \<noteq> calculateInvoiceTotal (Finite 125) (Finite 10) (Finite 5)"
    by (rule ordering_observable) (use lo hi pr in simp_all)
  then show ?thesis using v w by simp
qed

section \<open>Properties of the status derivation\<close>

text \<open>On a host whose offset from UTC is the same at all times.\<close>

lemma setHours0_constant_offset:
  assumes "\<And>t b. LocalTZA e t b = z"
  shows "setHours0 e t = (t + z) div msPerDay * msPerDay - z"
proof -
  have "(t + z) - (t + z) mod msPerDay = (t + z) div msPerDay * msPerDay"
    by (simp add: minus_mod_eq_div_mult)
  then show ?thesis by (simp add: setHours0_def Let_def assms)
qed

lemma getInvoiceStatus_stable:
  "s = ''paid'' \<or> s = ''draft'' \<Longrightarrow> getInvoiceStatus e s d = s"
  by (simp add: getInvoiceStatus_def)

lemma getInvoiceStatus_pending:
  "getInvoiceStatus e ''pending'' d =
     (if date_less (Date_parse e d) (Some (setHours0 e (Date_now e)))
      then ''overdue'' else ''pending'')"
  by (simp add: getInvoiceStatus_def isInvoiceOverdue_def Let_def)

text \<open>
  A due date given as a date only, \<^verbatim>\<open>YYYY-MM-DD\<close>, is read as midnight UTC of that day,
  \<open>k\<close> days after the epoch. On a host in UTC the derivation then goes by calendar days:
  a pending invoice is overdue exactly when today is a later day than the due date.
\<close>

lemma pending_by_calendar_day_UTC:
  assumes "\<And>t b. LocalTZA e t b = 0" and "Date_parse e d = Some (k * msPerDay)"
  shows "getInvoiceStatus e ''pending'' d =
    (if k < Date_now e div msPerDay then ''overdue'' else ''pending'')"
proof -
  have "setHours0 e (Date_now e) = Date_now e div msPerDay * msPerDay"
    using setHours0_constant_offset [of e 0 "Date_now e"] assms(1) by simp
  moreover have "k * msPerDay < n * msPerDay \<longleftrightarrow> k < n" for n
    by (simp add: msPerDay_def)
  ultimately show ?thesis
    by (simp add: getInvoiceStatus_pending assms(2) date_less_def)
qed

text \<open>
  On a host west of UTC, by up to a day, the start of the local day is later than
  midnight UTC of that day: a pending invoice is overdue from the start of its due date
  on, \<open>n\<close> being the day of the local date of now.
\<close>

lemma pending_by_calendar_day_west:
  assumes "\<And>t b. LocalTZA e t b = z" and "- msPerDay \<le> z" and "z < 0"
    and "Date_parse e d = Some (k * msPerDay)"
  shows "getInvoiceStatus e ''pending'' d =
    (if k \<le> (Date_now e + z) div msPerDay then ''overdue'' else ''pending'')"
proof -
  define n where "n = (Date_now e + z) div msPerDay"
  have today: "setHours0 e (Date_now e) = n * msPerDay - z"
    unfolding n_def using assms(1) by (rule setHours0_constant_offset)
  have "k * msPerDay < n * msPerDay - z \<longleftrightarrow> k \<le> n"
  proof
    assume "k * msPerDay < n * msPerDay - z"
    then have "(k - n) * msPerDay < msPerDay * 1"
      using assms(2) by (simp add: algebra_simps)
    then have "(k - n) * msPerDay < 1 * msPerDay" by simp
    then have "k - n < 1" by (simp add: msPerDay_def)
    then show "k \<le> n" by simp
  next
    assume "k \<le> n"
    then have "k * msPerDay \<le> n * msPerDay" by (simp add: msPerDay_def)
    then show "k * msPerDay < n * msPerDay - z" using assms(3) by linarith
  qed
  then show ?thesis
    by (simp add: getInvoiceStatus_pending assms(4) date_less_def today n_def)
qed

text \<open>
  C2, where the code leaves the claim. The status \<^verbatim>\<open>cancelled\<close> is not among the
  statuses the derivation returns unchanged: on 1 June 2024 a cancelled invoice that was
  due on 1 January 2024 is derived as overdue. (The statuses paid and draft are returned
  unchanged at every date: \<open>getInvoiceStatus_stable\<close>.)
\<close>

theorem cancelled_derived_overdue:
  "getInvoiceStatus noon_1_June_2024 ''cancelled'' ''2024-01-01'' = ''overdue''"
  by (simp add: getInvoiceStatus_def isInvoiceOverdue_def Let_def noon_1_June_2024_def
      isoDates_def setHours0_def msPerDay_def date_less_def)

text \<open>
  C3, where the code leaves the claim. On a host four hours west of UTC, at noon local
  time of 1 June 2024, a pending invoice due on 1 June 2024 is derived as overdue: the due
  date is read as midnight UTC of 1 June (day 19875 after the epoch), which is 20:00 of
  31 May on that host, and it is compared with the start of the local day, 04:00 UTC of
  1 June. The local date of now is the due date, day 19875, not a later one. On a host in
  UTC the same invoice is pending at noon of that day.
\<close>

theorem pending_overdue_on_due_date:
  "Date_parse noon_1_June_2024_west ''2024-06-01'' = Some (19875 * msPerDay)
   \<and> (Date_now noon_1_June_2024_west
        + LocalTZA noon_1_June_2024_west (Date_now noon_1_June_2024_west) True) div msPerDay
       = 19875
   \<and> getInvoiceStatus noon_1_June_2024_west ''pending'' ''2024-06-01'' = ''overdue''
   \<and> getInvoiceStatus noon_1_June_2024 ''pending'' ''2024-06-01'' = ''pending''"
  by (simp add: getInvoiceStatus_def isInvoiceOverdue_def Let_def noon_1_June_2024_west_def
      noon_1_June_2024_def isoDates_def setHours0_def msPerDay_def date_less_def)

section \<open>Properties of the text of numbers\<close>

lemma digit_chars:
  "digit 0 = CHR ''0''" "digit 1 = CHR ''1''" "digit 2 = CHR ''2''" "digit 3 = CHR ''3''"
  "digit 4 = CHR ''4''" "digit 5 = CHR ''5''" "digit 6 = CHR ''6''" "digit 7 = CHR ''7''"
  "digit 8 = CHR ''8''" "digit 9 = CHR ''9''" "digit (Suc 0) = CHR ''1''"
  by (simp_all add: digit_def char_of_def bit_0)

lemma is_digit_digit: "d < 10 \<Longrightarrow> is_digit (digit d)"
  by (simp add: is_digit_def digit_def)

lemma digit_value_digit: "d < 10 \<Longrightarrow> digit_value (digit d) = d"
  by (simp add: digit_value_def digit_def)

lemma is_digit_not_point: "is_digit c \<Longrightarrow> c \<noteq> CHR ''.''"
  by (auto simp: is_digit_def)

lemma is_digit_not_minus: "is_digit c \<Longrightarrow> c \<noteq> CHR ''-''"
  by (auto simp: is_digit_def)

lemma digits_are_digits: "c \<in> set (digits n) \<Longrightarrow> is_digit c"
proof (induction n rule: digits.induct)
  case (1 n)
  show ?case
  proof (cases "n < 10")
    case True
    with "1.prems" have "c = digit n"
      by (subst (asm) digits.simps) simp
    with True show ?thesis
      by (simp add: is_digit_digit)
  next
    case False
    with "1.prems" have "c \<in> set (digits (n div 10)) \<or> c = digit (n mod 10)"
      by (subst (asm) digits.simps) auto
    then show ?thesis
    proof
      assume "c \<in> set (digits (n div 10))"
      with False show ?thesis by (rule "1.IH")
    next
      assume "c = digit (n mod 10)"
      then show ?thesis by (simp add: is_digit_digit)
    qed
  qed
qed

lemma digits_not_Nil: "digits n \<noteq> []"
  by (subst digits.simps) simp

lemma readDigits_single: "readDigits [c] = digit_value c"
  by (simp add: readDigits_def)

lemma readDigits_append:
  "readDigits (a @ b) = readDigits a * 10 ^ length b + readDigits b"
proof (induction b rule: rev_induct)
  case Nil
  show ?case by (simp add: readDigits_def)
next
  case (snoc c b)
  have "readDigits (a @ b @ [c]) = 10 * readDigits (a @ b) + digit_value c"
    by (simp add: readDigits_def)
  also have "\<dots> = 10 * (readDigits a * 10 ^ length b + readDigits b) + digit_value c"
    by (simp only: snoc.IH)
  also have "\<dots> = readDigits a * 10 ^ length (b @ [c]) + (10 * readDigits b + digit_value c)"
    by (simp add: algebra_simps)
  also have "10 * readDigits b + digit_value c = readDigits (b @ [c])"
    by (simp add: readDigits_def)
  finally show ?case by simp
qed

lemma readDigits_digits: "readDigits (digits n) = n"
proof (induction n rule: digits.induct)
  case (1 n)
  show ?case
  proof (cases "n < 10")
    case True
    then show ?thesis
      by (subst digits.simps) (simp add: readDigits_single digit_value_digit)
  next
    case False
    have "readDigits (digits n) = readDigits (digits (n div 10) @ [digit (n mod 10)])"
      using False by (subst digits.simps) simp
    also have "\<dots> = readDigits (digits (n div 10)) * 10 + n mod 10"
      by (simp add: readDigits_append readDigits_single digit_value_digit)
    also have "\<dots> = n"
      using False "1.IH" by simp
    finally show ?thesis .
  qed
qed

lemma readDigits_zeros: "readDigits (replicate k (CHR ''0'') @ s) = readDigits s"
proof -
  have "readDigits (replicate k (CHR ''0'')) = 0"
  proof (induction k)
    case 0
    show ?case by (simp add: readDigits_def)
  next
    case (Suc k)
    have "replicate (Suc k) (CHR ''0'') = replicate k (CHR ''0'') @ [CHR ''0'']"
      by (simp add: replicate_append_same)
    then have "readDigits (replicate (Suc k) (CHR ''0'')) =
        readDigits (replicate k (CHR ''0'')) * 10 + digit_value (CHR ''0'')"
      by (simp only: readDigits_append readDigits_single) simp
    with Suc show ?case by (simp add: digit_value_def)
  qed
  then show ?thesis by (simp add: readDigits_append)
qed

text \<open>
  The layout of \<open>fixed2\<close>: digits, the point, two digits; read back as hundredths it is
  the number laid out.
\<close>

lemma fixed2_split:
  "\<exists>a b. fixed2 n = a @ CHR ''.'' # b \<and> length b = 2 \<and> a \<noteq> []
     \<and> (\<forall>c\<in>set a. is_digit c) \<and> (\<forall>c\<in>set b. is_digit c)
     \<and> readDigits a * 100 + readDigits b = n"
proof -
  define m where "m = (if length (digits n) \<le> 2
      then replicate (3 - length (digits n)) (CHR ''0'') @ digits n else digits n)"
  define a where "a = take (length m - 2) m"
  define b where "b = drop (length m - 2) m"
  have len: "3 \<le> length m"
    using digits_not_Nil [of n] by (auto simp: m_def)
  have zero: "is_digit (CHR ''0'')"
    by (simp add: is_digit_def)
  have dig: "\<forall>c\<in>set m. is_digit c"
    using digits_are_digits [of _ n] zero by (auto simp: m_def)
  have val: "readDigits m = n"
    by (simp add: m_def readDigits_zeros readDigits_digits)
  have ab: "a @ b = m"
    by (simp add: a_def b_def)
  have lb: "length b = 2"
    using len by (simp add: b_def)
  have "a \<noteq> []"
    using len by (auto simp: a_def)
  moreover have "\<forall>c\<in>set a. is_digit c"
    using dig by (auto simp: a_def dest: in_set_takeD)
  moreover have "\<forall>c\<in>set b. is_digit c"
    using dig by (auto simp: b_def dest: in_set_dropD)
  moreover have "readDigits a * 100 + readDigits b = n"
    using readDigits_append [of a b] lb ab val by simp
  moreover have "fixed2 n = a @ CHR ''.'' # b"
    by (simp add: fixed2_def Let_def m_def a_def b_def)
  ultimately show ?thesis using lb by blast
qed

lemma fixed2_not_signed: "take 1 (fixed2 n) \<noteq> ''-''"
proof -
  obtain a b where f: "fixed2 n = a @ CHR ''.'' # b" and a: "a \<noteq> []"
    and dig: "\<forall>c\<in>set a. is_digit c"
    using fixed2_split by blast
  from a obtain c cs where acs: "a = c # cs" by (cases a) auto
  have "c \<noteq> CHR ''-''" using dig acs by (simp add: is_digit_not_minus)
  then show ?thesis by (simp add: f acs)
qed

lemma readDecimal_fixed2: "readDecimal (fixed2 n) = real n / 100"
proof -
  obtain a b where f: "fixed2 n = a @ CHR ''.'' # b" and lb: "length b = 2"
    and dig: "\<forall>c\<in>set a. is_digit c" and val: "readDigits a * 100 + readDigits b = n"
    using fixed2_split by blast
  have np: "\<forall>c\<in>set a. c \<noteq> CHR ''.''" using dig by (auto dest: is_digit_not_point)
  have tw: "takeWhile (\<lambda>c. c \<noteq> CHR ''.'') (a @ CHR ''.'' # b) = a"
    using np by simp
  have dw: "dropWhile (\<lambda>c. c \<noteq> CHR ''.'') (a @ CHR ''.'' # b) = CHR ''.'' # b"
    using np by simp
  have "readDecimal (fixed2 n) =
      real (readDigits (takeWhile (\<lambda>c. c \<noteq> CHR ''.'') (fixed2 n)))
      + real (readDigits (drop 1 (dropWhile (\<lambda>c. c \<noteq> CHR ''.'') (fixed2 n))))
        / 10 ^ length (drop 1 (dropWhile (\<lambda>c. c \<noteq> CHR ''.'') (fixed2 n)))"
    using fixed2_not_signed [of n] by (simp add: readDecimal_def Let_def)
  also have "\<dots> = real (readDigits a) + real (readDigits b) / 100"
    unfolding f tw dw using lb by simp
  also have "\<dots> = real (readDigits a * 100 + readDigits b) / 100"
    by (simp add: add_divide_distrib)
  finally show ?thesis by (simp only: val)
qed

lemma readDecimal_minus_fixed2: "readDecimal (CHR ''-'' # fixed2 n) = - (real n / 100)"
proof -
  have "readDecimal (CHR ''-'' # fixed2 n) = - readDecimal (fixed2 n)"
    using fixed2_not_signed [of n] by (simp add: readDecimal_def Let_def)
  then show ?thesis by (simp add: readDecimal_fixed2)
qed

section \<open>Properties of the statistics aggregator\<close>

text \<open>One round of the loop adds the total to the accumulator of the invoice's bucket.\<close>

lemma tally_bucket:
  "tally e (p, d, v) i =
     (if spec_bucket e i = Pending then fadd p (parseFloat (totalAmount i)) else p,
      if spec_bucket e i = Paid then fadd d (parseFloat (totalAmount i)) else d,
      if spec_bucket e i = Overdue then fadd v (parseFloat (totalAmount i)) else v)"
  by (simp add: tally_def spec_bucket_def Let_def)

lemma foldl_tally:
  "foldl (tally e) (p, d, v) invs =
     (foldl fadd p (map (\<lambda>i. parseFloat (totalAmount i)) (filter (\<lambda>i. spec_bucket e i = Pending) invs)),
      foldl fadd d (map (\<lambda>i. parseFloat (totalAmount i)) (filter (\<lambda>i. spec_bucket e i = Paid) invs)),
      foldl fadd v (map (\<lambda>i. parseFloat (totalAmount i)) (filter (\<lambda>i. spec_bucket e i = Overdue) invs)))"
proof (induction invs arbitrary: p d v)
  case Nil
  show ?case by simp
next
  case (Cons i invs)
  show ?case
    by (cases "spec_bucket e i") (simp_all only: foldl_Cons tally_bucket Cons.IH, simp_all)
qed

lemma getInvoiceStats_sums:
  "getInvoiceStats e invs =
     \<lparr> totalInvoices = length invs,
       pendingAmount = ''$'' @ toFixed2 e (bucket_total e Pending invs),
       paidAmount = ''$'' @ toFixed2 e (bucket_total e Paid invs),
       overdueAmount = ''$'' @ toFixed2 e (bucket_total e Overdue invs) \<rparr>"
  by (simp add: getInvoiceStats_def foldl_tally bucket_total_def)




text \<open>
  The error of adding up in doubles. With rounding unit \<open>u64\<close>, a total read by
  \<^verbatim>\<open>parseFloat\<close> is off by at most \<open>u64 * A + eta64\<close> when its magnitude is at most \<open>A\<close>,
  and each addition adds at most \<open>3 * u64 * A + 2 * eta64\<close> to the error of the sum, as
  long as the magnitudes of the totals added add up to at most \<open>A\<close>.
\<close>

lemma u64_value: "u64 = 1 / 2 ^ 53"
  by (simp add: u64_def power_int_minus field_simps)

lemma eta64_le_u64: "eta64 \<le> u64"
  unfolding eta64_def u64_def by (intro power_int_increasing) simp_all

lemma below_overflow:
  fixes x A :: real
  assumes "\<bar>x\<bar> \<le> 3 * A + 1" and "A \<le> 2 powi 1000"
  shows "\<bar>x\<bar> < 2 powi 1023"
proof -
  have "(1::real) \<le> 2 powi 1000" by (rule one_le_power_int) simp_all
  with assms have "\<bar>x\<bar> \<le> 4 * 2 powi 1000" by linarith
  also have "\<dots> = 2 powi 2 * 2 powi 1000" by simp
  also have "\<dots> = 2 powi (2 + 1000)" by (rule power_int_add [symmetric]) simp
  also have "\<dots> < 2 powi 1023" by (intro power_int_strict_increasing) simp_all
  finally show ?thesis .
qed

lemma fadd_accumulate:
  assumes inv: "\<bar>a - T\<bar> \<le> real k * (4 * (u64 * A) + 3 * eta64)"
    and TA: "\<bar>T\<bar> + \<bar>x\<bar> \<le> A" and A: "A \<le> 2 powi 1000"
    and k: "4 * real (Suc k) * u64 \<le> 1"
  shows "\<exists>a'. fadd (Finite a) (round64 x) = Finite a'
    \<and> \<bar>a' - (T + x)\<bar> \<le> real (Suc k) * (4 * (u64 * A) + 3 * eta64)"
proof -
  define W where "W = u64 * A"
  define H where "H = eta64"
  define D where "D = 4 * W + 3 * H"
  define P where "P = real k * D"
  have A0: "0 \<le> A" using TA by linarith
  have H0: "0 < H" unfolding H_def by (rule eta64_bounds)
  have W0: "0 \<le> W" unfolding W_def using u64_bounds(1) A0 by simp
  have WA: "W \<le> A"
  proof -
    have "u64 * A \<le> 1 * A" using u64_bounds(2) A0 by (intro mult_right_mono)
    then show ?thesis by (simp add: W_def)
  qed
  have inv': "\<bar>a - T\<bar> \<le> P" using inv by (simp add: P_def D_def W_def H_def)
  have xA: "\<bar>x\<bar> \<le> 1 * A + 0" using TA by linarith
  have "\<exists>v. round64 x = Finite v \<and> \<bar>v - x\<bar> \<le> 1 * (u64 * A) + 0 + eta64
      \<and> (0 \<le> x \<longrightarrow> 0 \<le> v) \<and> (x \<le> 0 \<longrightarrow> v \<le> 0)"
    by (rule round64_bound) (use xA A0 A in simp_all)
  then obtain v where v: "round64 x = Finite v" and v_err: "\<bar>v - x\<bar> \<le> W + H"
    unfolding W_def H_def by auto
  have ku: "4 * real k * u64 \<le> 1" and ku1: "(3 * real k + 1) * u64 \<le> 1"
  proof -
    have "4 * real k * u64 \<le> 4 * real (Suc k) * u64"
      using u64_bounds(1) by (intro mult_right_mono) simp_all
    with k show "4 * real k * u64 \<le> 1" by linarith
    have "(3 * real k + 1) * u64 \<le> 4 * real (Suc k) * u64"
      using u64_bounds(1) by (intro mult_right_mono) simp_all
    with k show "(3 * real k + 1) * u64 \<le> 1" by linarith
  qed
  have kW: "real k * (4 * W) \<le> A"
  proof -
    have "4 * real k * u64 * A \<le> 1 * A" using ku A0 by (intro mult_right_mono)
    then show ?thesis by (simp add: W_def mult.assoc mult.left_commute)
  qed
  have kH: "(3 * real k + 1) * u64 * H \<le> H"
  proof -
    have "(3 * real k + 1) * u64 * H \<le> 1 * H" using ku1 H0 by (intro mult_right_mono) simp_all
    then show ?thesis by simp
  qed
  have small: "(3 * real k + 1) * H \<le> 1"
  proof -
    have "(3 * real k + 1) * H \<le> (3 * real k + 1) * u64"
      unfolding H_def using eta64_le_u64 by (intro mult_left_mono) simp_all
    with ku1 show ?thesis by linarith
  qed
  have P_eq: "P = real k * (4 * W) + 3 * real k * H"
    by (simp add: P_def D_def algebra_simps)
  have "\<bar>a + v\<bar> \<le> \<bar>T\<bar> + \<bar>x\<bar> + \<bar>a - T\<bar> + \<bar>v - x\<bar>" by linarith
  with TA inv' v_err have "\<bar>a + v\<bar> \<le> A + P + W + H" by linarith
  with P_eq kW WA have z: "\<bar>a + v\<bar> \<le> 3 * A + (3 * real k + 1) * H"
    by (simp add: algebra_simps)
  with small have "\<bar>a + v\<bar> \<le> 3 * A + 1" by linarith
  then have "\<bar>a + v\<bar> < 2 powi 1023" using A by (rule below_overflow)
  then obtain y where y: "round64 (a + v) = Finite y"
    and y_err: "\<bar>y - (a + v)\<bar> \<le> u64 * \<bar>a + v\<bar> + eta64"
    by (rule round64_finite) blast
  have "u64 * \<bar>a + v\<bar> \<le> u64 * (3 * A + (3 * real k + 1) * H)"
    using z u64_bounds(1) by (intro mult_left_mono) simp_all
  also have "\<dots> = 3 * W + (3 * real k + 1) * u64 * H" by (simp add: W_def algebra_simps)
  also have "\<dots> \<le> 3 * W + H" using kH by linarith
  finally have "\<bar>y - (a + v)\<bar> \<le> 3 * W + H + H" using y_err unfolding H_def by linarith
  moreover have "\<bar>y - (T + x)\<bar> \<le> \<bar>y - (a + v)\<bar> + \<bar>a - T\<bar> + \<bar>v - x\<bar>" by linarith
  ultimately have "\<bar>y - (T + x)\<bar> \<le> P + D" using inv' v_err unfolding D_def by linarith
  also have "P + D = real (Suc k) * D" by (simp add: P_def algebra_simps)
  finally have "\<bar>y - (T + x)\<bar> \<le> real (Suc k) * (4 * (u64 * A) + 3 * eta64)"
    by (simp add: D_def W_def H_def)
  moreover have "fadd (Finite a) (round64 x) = Finite y" by (simp add: v y)
  ultimately show ?thesis by blast
qed

lemma parseFloat_round: "parseFloat d = round64 (decimal_value d)"
  by (cases d) (simp add: parseFloat_def decimal_value_def hundredths_def)

lemma bucket_total_snoc:
  "bucket_total e b (invs @ [i]) =
     (if spec_bucket e i = b then fadd (bucket_total e b invs) (parseFloat (totalAmount i))
      else bucket_total e b invs)"
  by (simp add: bucket_total_def)

lemma bucket_sum_snoc:
  "bucket_sum e b (invs @ [i]) =
     bucket_sum e b invs + (if spec_bucket e i = b then decimal_value (totalAmount i) else 0)"
  by (simp add: bucket_sum_def)

lemma bucket_sum_abs:
  "\<bar>bucket_sum e b invs\<bar> \<le> sum_list (map (\<lambda>i. \<bar>decimal_value (totalAmount i)\<bar>) invs)"
proof (induction invs)
  case Nil
  show ?case by (simp add: bucket_sum_def)
next
  case (Cons i invs)
  then show ?case by (auto simp: bucket_sum_def)
qed

lemma bucket_total_error:
  assumes "sum_list (map (\<lambda>i. \<bar>decimal_value (totalAmount i)\<bar>) invs) \<le> A"
    and "A \<le> 2 powi 1000" and "4 * real (length invs) * u64 \<le> 1"
  shows "\<exists>a. bucket_total e b invs = Finite a
    \<and> \<bar>a - bucket_sum e b invs\<bar> \<le> real (length invs) * (4 * (u64 * A) + 3 * eta64)"
  using assms
proof (induction invs rule: rev_induct)
  case Nil
  show ?case by (simp add: bucket_total_def bucket_sum_def)
next
  case (snoc i invs)
  define n where "n = length invs"
  define x where "x = decimal_value (totalAmount i)"
  define D where "D = 4 * (u64 * A) + 3 * eta64"
  have sums: "sum_list (map (\<lambda>i. \<bar>decimal_value (totalAmount i)\<bar>) invs) + \<bar>x\<bar> \<le> A"
    using snoc.prems(1) by (simp add: x_def)
  then have A0: "0 \<le> A"
    using bucket_sum_abs [of e b invs] by linarith
  have D0: "0 \<le> D"
    unfolding D_def using A0 u64_bounds(1) eta64_bounds(1) by simp
  have k: "4 * real (Suc n) * u64 \<le> 1" using snoc.prems(3) by (simp add: n_def)
  have "4 * real n * u64 \<le> 4 * real (Suc n) * u64"
    using u64_bounds(1) by (intro mult_right_mono) simp_all
  with k have k': "4 * real (length invs) * u64 \<le> 1" unfolding n_def by linarith
  have "sum_list (map (\<lambda>i. \<bar>decimal_value (totalAmount i)\<bar>) invs) \<le> A" using sums by linarith
  from snoc.IH [OF this snoc.prems(2) k']
  obtain a where a: "bucket_total e b invs = Finite a"
    and a_err: "\<bar>a - bucket_sum e b invs\<bar> \<le> real n * D"
    unfolding n_def D_def by blast
  show ?case
  proof (cases "spec_bucket e i = b")
    case True
    have TA: "\<bar>bucket_sum e b invs\<bar> + \<bar>x\<bar> \<le> A"
      using sums bucket_sum_abs [of e b invs] by linarith
    have "\<exists>a'. fadd (Finite a) (round64 x) = Finite a'
        \<and> \<bar>a' - (bucket_sum e b invs + x)\<bar> \<le> real (Suc n) * (4 * (u64 * A) + 3 * eta64)"
      using a_err TA snoc.prems(2) k unfolding D_def by (rule fadd_accumulate)
    then show ?thesis
      using True by (simp add: bucket_total_snoc bucket_sum_snoc a parseFloat_round x_def n_def)
  next
    case False
    have "real n * D \<le> real (Suc n) * D" using D0 by (intro mult_right_mono) simp_all
    with a_err have "\<bar>a - bucket_sum e b invs\<bar> \<le> real (Suc n) * D" by linarith
    then show ?thesis
      using False by (simp add: bucket_total_snoc bucket_sum_snoc a n_def D_def)
  qed
qed

text \<open>
  A double within half a hundredth of a whole number of hundredths is printed by
  \<^verbatim>\<open>toFixed(2)\<close> as that number: read back, the text behind the currency sign is the
  number.
\<close>

lemma readAmount_toFixed2:
  assumes near: "\<bar>a - real_of_int K / 100\<bar> < 1 / 200" and K: "\<bar>K\<bar> \<le> 10 ^ 15"
  shows "readAmount (CHR ''$'' # toFixed2 e (Finite a)) = real_of_int K / 100"
proof -
  have "\<bar>\<bar>a\<bar> - \<bar>real_of_int K / 100\<bar>\<bar> \<le> \<bar>a - real_of_int K / 100\<bar>" by linarith
  with near have "\<bar>\<bar>a\<bar> - \<bar>real_of_int K / 100\<bar>\<bar> < 1 / 200" by linarith
  moreover have "\<bar>real_of_int K / 100\<bar> = real_of_int \<bar>K\<bar> / 100" by simp
  ultimately have close: "\<bar>\<bar>a\<bar> * 100 - real_of_int \<bar>K\<bar>\<bar> < 1 / 2" by (simp add: field_simps)
  have fl: "\<lfloor>\<bar>a\<bar> * 100 + 1 / 2\<rfloor> = \<bar>K\<bar>"
  proof (rule floor_unique)
    show "real_of_int \<bar>K\<bar> \<le> \<bar>a\<bar> * 100 + 1 / 2" using close by linarith
    show "\<bar>a\<bar> * 100 + 1 / 2 < real_of_int \<bar>K\<bar> + 1" using close by linarith
  qed
  have "real_of_int \<bar>K\<bar> \<le> 10 ^ 15"
    using K by (metis of_int_le_iff of_int_numeral of_int_power)
  with close have "\<bar>a\<bar> * 100 < 10 ^ 15 + 1" by linarith
  then have small: "\<not> 10 ^ 21 \<le> \<bar>a\<bar>" by simp
  show ?thesis
  proof (cases "a < 0")
    case True
    have "real_of_int K / 100 < a + 1 / 200" using near by linarith
    with True have "real_of_int K < 1" by simp
    then have "K \<le> 0" by linarith
    moreover have "toFixed2 e (Finite a) = CHR ''-'' # fixed2 (nat \<bar>K\<bar>)"
      unfolding toFixed2_def double.case fl using True small by simp
    ultimately show ?thesis
      by (simp add: readAmount_def readDecimal_minus_fixed2)
  next
    case False
    have "a - 1 / 200 < real_of_int K / 100" using near by linarith
    with False have "- 1 < real_of_int K" by simp
    then have "0 \<le> K" by linarith
    moreover have "toFixed2 e (Finite a) = fixed2 (nat \<bar>K\<bar>)"
      unfolding toFixed2_def double.case fl using False small by simp
    ultimately show ?thesis
      by (simp add: readAmount_def readDecimal_fixed2)
  qed
qed

text \<open>The exact sum of a bucket is a whole number of hundredths.\<close>

lemma bucket_sum_hundredths:
  "\<exists>K. bucket_sum e b invs = real_of_int K / 100
     \<and> \<bar>K\<bar> \<le> sum_list (map (\<lambda>i. \<bar>hundredths (totalAmount i)\<bar>) invs)"
proof (induction invs)
  case Nil
  show ?case by (simp add: bucket_sum_def)
next
  case (Cons i invs)
  then obtain K where K: "bucket_sum e b invs = real_of_int K / 100"
    "\<bar>K\<bar> \<le> sum_list (map (\<lambda>i. \<bar>hundredths (totalAmount i)\<bar>) invs)" by blast
  show ?case
  proof (cases "spec_bucket e i = b")
    case True
    have "bucket_sum e b (i # invs) = real_of_int (hundredths (totalAmount i) + K) / 100"
      using True K(1) by (simp add: bucket_sum_def decimal_value_def add_divide_distrib)
    moreover have "\<bar>hundredths (totalAmount i) + K\<bar>
        \<le> sum_list (map (\<lambda>i. \<bar>hundredths (totalAmount i)\<bar>) (i # invs))"
      using K(2) by simp
    ultimately show ?thesis by blast
  next
    case False
    have "bucket_sum e b (i # invs) = real_of_int K / 100"
      using False K(1) by (simp add: bucket_sum_def)
    moreover have "\<bar>K\<bar> \<le> sum_list (map (\<lambda>i. \<bar>hundredths (totalAmount i)\<bar>) (i # invs))"
      using K(2) by simp
    ultimately show ?thesis by blast
  qed
qed

lemma abs_sum_hundredths:
  "sum_list (map (\<lambda>i. \<bar>decimal_value (totalAmount i)\<bar>) invs)
     = real_of_int (sum_list (map (\<lambda>i. \<bar>hundredths (totalAmount i)\<bar>) invs)) / 100"
  by (induction invs) (simp_all add: decimal_value_def add_divide_distrib)

lemma bucket_sum_partition:
  "bucket_sum e Pending invs + bucket_sum e Paid invs + bucket_sum e Overdue invs =
     sum_list (map (\<lambda>i. decimal_value (totalAmount i)) invs)"
proof (induction invs)
  case Nil
  show ?case by (simp add: bucket_sum_def)
next
  case (Cons i invs)
  then show ?case
    by (cases "spec_bucket e i") (simp_all add: bucket_sum_def)
qed

text \<open>With every total 0, every amount is 0.\<close>

lemma bucket_total_zero:
  assumes "\<And>i. i \<in> set invs \<Longrightarrow> hundredths (totalAmount i) = 0"
  shows "bucket_total e b invs = Finite 0"
  using assms
proof (induction invs rule: rev_induct)
  case Nil
  show ?case by (simp add: bucket_total_def)
next
  case (snoc i invs)
  have "bucket_total e b invs = Finite 0" using snoc.prems by (intro snoc.IH) simp
  moreover have "parseFloat (totalAmount i) = Finite 0"
    using snoc.prems [of i] by (simp add: parseFloat_round decimal_value_def round64_zero)
  ultimately show ?case
    by (simp add: bucket_total_snoc round64_zero)
qed

text \<open>
  The bound that keeps every amount exact: the number of invoices times the sum of the
  magnitudes of their totals, in hundredths, is at most \<open>10\<^sup>1\<^sup>5\<close>.
\<close>

lemma readAmount_bucket:
  assumes "int (length invs) * sum_list (map (\<lambda>i. \<bar>hundredths (totalAmount i)\<bar>) invs) \<le> 10 ^ 15"
  shows "readAmount (CHR ''$'' # toFixed2 e (bucket_total e b invs)) = bucket_sum e b invs"
proof -
  define M where "M = sum_list (map (\<lambda>i. \<bar>hundredths (totalAmount i)\<bar>) invs)"
  define N where "N = length invs"
  obtain K where K: "bucket_sum e b invs = real_of_int K / 100" "\<bar>K\<bar> \<le> M"
    unfolding M_def using bucket_sum_hundredths by blast
  have M0: "0 \<le> M" using K(2) by linarith
  have NM: "int N * M \<le> 10 ^ 15" using assms by (simp add: N_def M_def)
  show ?thesis
  proof (cases "M = 0")
    case True
    have "\<forall>x \<in> set (map (\<lambda>i. \<bar>hundredths (totalAmount i)\<bar>) invs). x = 0"
      using True unfolding M_def by (subst (asm) sum_list_nonneg_eq_0_iff) auto
    then have "hundredths (totalAmount i) = 0" if "i \<in> set invs" for i
      using that by auto
    then have "bucket_total e b invs = Finite 0" by (rule bucket_total_zero)
    moreover have "K = 0" using K(2) True by simp
    moreover have "readAmount (CHR ''$'' # toFixed2 e (Finite 0)) = real_of_int 0 / 100"
      by (rule readAmount_toFixed2) simp_all
    ultimately show ?thesis using K(1) by simp
  next
    case False
    then have M1: "1 \<le> M" using M0 by linarith
    have "int N * 1 \<le> int N * M" using M1 by (intro mult_left_mono) simp_all
    with NM have N_le: "int N \<le> 10 ^ 15" by linarith
    have N1: "1 \<le> N"
    proof (rule ccontr)
      assume "\<not> 1 \<le> N"
      then have "length invs = 0" unfolding N_def by linarith
      then have "invs = []" by simp
      then have "M = 0" by (simp add: M_def)
      with False show False by simp
    qed
    have "1 * M \<le> int N * M" using N1 M0 by (intro mult_right_mono) simp_all
    with NM have M_le: "M \<le> 10 ^ 15" by linarith
    define A where "A = real_of_int M / 100"
    have rN: "real N \<le> 10 ^ 15"
    proof -
      have "real_of_int (int N) \<le> real_of_int (10 ^ 15)" using N_le by (simp only: of_int_le_iff)
      then show ?thesis by simp
    qed
    have rNM: "real N * A \<le> 10 ^ 13"
    proof -
      have "real_of_int (int N * M) \<le> real_of_int (10 ^ 15)" using NM by (simp only: of_int_le_iff)
      then have "real N * real_of_int M \<le> 10 ^ 15" by simp
      then show ?thesis by (simp add: A_def)
    qed
    have A0: "0 \<le> A" using M0 by (simp add: A_def)
    have A_hi: "A \<le> 2 powi 1000"
    proof -
      have "real_of_int M \<le> real_of_int (10 ^ 15)" using M_le by (simp only: of_int_le_iff)
      then have "A \<le> 10 ^ 13" by (simp add: A_def)
      also have "\<dots> \<le> (2::real) powi 50" by simp
      also have "\<dots> \<le> 2 powi 1000" by (intro power_int_increasing) simp_all
      finally show ?thesis .
    qed
    have few: "4 * real N * u64 \<le> 1"
      using rN by (simp add: u64_value field_simps)
    have sums: "sum_list (map (\<lambda>i. \<bar>decimal_value (totalAmount i)\<bar>) invs) \<le> A"
      by (simp add: abs_sum_hundredths A_def M_def)
    obtain a where a: "bucket_total e b invs = Finite a"
      and a_err: "\<bar>a - bucket_sum e b invs\<bar> \<le> real N * (4 * (u64 * A) + 3 * eta64)"
      using bucket_total_error [OF sums A_hi, of e b] few unfolding N_def by blast
    have "real N * (4 * (u64 * A) + 3 * eta64) = 4 * u64 * (real N * A) + 3 * (real N * eta64)"
      by (simp add: algebra_simps)
    also have "4 * u64 * (real N * A) \<le> 4 * u64 * 10 ^ 13"
      using rNM u64_bounds(1) by (intro mult_left_mono) simp_all
    also have "4 * u64 * 10 ^ 13 \<le> 45 / 10000" by (simp add: u64_value)
    also have "3 * (real N * eta64) \<le> 1 / 10000"
    proof -
      have "real N * eta64 \<le> 10 ^ 15 * eta64"
        using rN eta64_bounds(1) by (intro mult_right_mono) simp_all
      also have "\<dots> \<le> 2 powi 50 * eta64"
        using eta64_bounds(1) by (intro mult_right_mono) simp_all
      also have "\<dots> = 2 powi (50 + - 1075)"
        unfolding eta64_def by (rule power_int_add [symmetric]) simp
      also have "\<dots> \<le> 2 powi (- 20)" by (intro power_int_increasing) simp_all
      also have "\<dots> \<le> 1 / 30000" by simp
      finally show ?thesis by simp
    qed
    finally have "real N * (4 * (u64 * A) + 3 * eta64) \<le> 46 / 10000" by simp
    with a_err have "\<bar>a - real_of_int K / 100\<bar> < 1 / 200" unfolding K(1) by linarith
    moreover have "\<bar>K\<bar> \<le> 10 ^ 15" using K(2) M_le by linarith
    ultimately have "readAmount (CHR ''$'' # toFixed2 e (Finite a)) = real_of_int K / 100"
      by (rule readAmount_toFixed2)
    then show ?thesis by (simp add: a K(1))
  qed
qed

lemma getInvoiceStats_count: "totalInvoices (getInvoiceStats e invs) = length invs"
  by (simp add: getInvoiceStats_sums)

text \<open>
  Adding the same double \<open>c\<close> again and again. While the sum stays between two
  neighbouring powers of two, \<open>2\<^sup>e\<close> and \<open>2\<^sup>e\<^sup>+\<^sup>1\<close>, it is a multiple \<open>m\<close> of \<open>2\<^sup>e\<^sup>-\<^sup>5\<^sup>2\<close>, and
  each addition moves \<open>m\<close> by the same \<open>k\<close>, the multiple nearest to \<open>c\<close>.
\<close>

lemma roundTiesToEven_add_int:
  assumes "y - of_int \<lfloor>y\<rfloor> \<noteq> 1 / 2"
  shows "roundTiesToEven (of_int m + y) = m + roundTiesToEven y"
proof -
  have "\<lfloor>of_int m + y\<rfloor> = m + \<lfloor>y\<rfloor>" by simp
  then show ?thesis using assms by (simp add: roundTiesToEven_def Let_def)
qed

lemma fadd_in_binade:
  assumes e: "- 1022 \<le> e" "e \<le> 1022"
    and m: "2 ^ 52 \<le> m" and c: "0 < c"
    and k: "roundTiesToEven (c / 2 powi (e - 52)) = k"
    and tie: "c / 2 powi (e - 52) - of_int \<lfloor>c / 2 powi (e - 52)\<rfloor> \<noteq> 1 / 2"
    and top: "of_int m + c / 2 powi (e - 52) < 2 ^ 53"
  shows "fadd (Finite (of_int m * 2 powi (e - 52))) (Finite c)
    = Finite (of_int (m + k) * 2 powi (e - 52))"
proof -
  define q :: real where "q = 2 powi (e - 52)"
  define x where "x = of_int m * q + c"
  have q0: "0 < q" by (simp add: q_def)
  have lowq: "2 powi e = 2 ^ 52 * q"
  proof -
    have "(2::real) powi (52 + (e - 52)) = 2 powi 52 * 2 powi (e - 52)"
      by (rule power_int_add) simp
    then show ?thesis by (simp add: q_def)
  qed
  have highq: "2 powi (e + 1) = 2 ^ 53 * q"
  proof -
    have "(2::real) powi (53 + (e - 52)) = 2 powi 53 * 2 powi (e - 52)"
      by (rule power_int_add) simp
    moreover have "53 + (e - 52) = e + 1" by simp
    ultimately show ?thesis by (simp add: q_def)
  qed
  have rm: "(2::real) ^ 52 \<le> of_int m"
  proof -
    have "real_of_int (2 ^ 52) \<le> real_of_int m" using m by (simp only: of_int_le_iff)
    then show ?thesis by simp
  qed
  have xq: "x / q = of_int m + c / q" using q0 by (simp add: x_def field_simps)
  have x0: "0 < x" unfolding x_def using rm q0 c by (simp add: add_nonneg_pos)
  have low: "2 powi e \<le> \<bar>x\<bar>"
  proof -
    have "2 ^ 52 * q \<le> of_int m * q" using rm q0 by (intro mult_right_mono) simp_all
    then show ?thesis unfolding lowq x_def using c by simp
  qed
  have high: "\<bar>x\<bar> < 2 powi (e + 1)"
  proof -
    have "(of_int m + c / q) * q < 2 ^ 53 * q"
      using top q0 unfolding q_def by (intro mult_strict_right_mono) simp_all
    moreover have "(of_int m + c / q) * q = x" using q0 by (simp add: x_def field_simps)
    ultimately show ?thesis unfolding highq using x0 by simp
  qed
  have r: "roundTiesToEven (\<bar>x\<bar> / 2 powi (e - 52)) = m + k"
  proof -
    have "\<bar>x\<bar> / 2 powi (e - 52) = of_int m + c / 2 powi (e - 52)"
      using x0 xq by (simp add: q_def)
    then show ?thesis using roundTiesToEven_add_int [OF tie, of m] k by simp
  qed
  have "round64 x = Finite (if 0 < x then of_int (m + k) * 2 powi (e - 52)
      else - (of_int (m + k) * 2 powi (e - 52)))"
    using low high e r by (rule round64_eval)
  then show ?thesis using x0 by (simp add: x_def q_def)
qed

lemma foldl_fadd_in_binade:
  assumes e: "- 1022 \<le> e" "e \<le> 1022"
    and a: "a = of_int m * 2 powi (e - 52)"
    and m: "2 ^ 52 \<le> m" and c: "0 < c"
    and k: "roundTiesToEven (c / 2 powi (e - 52)) = k"
    and tie: "c / 2 powi (e - 52) - of_int \<lfloor>c / 2 powi (e - 52)\<rfloor> \<noteq> 1 / 2"
    and top: "of_int (m + (int n - 1) * k) + c / 2 powi (e - 52) < 2 ^ 53"
    and a': "a' = of_int (m + int n * k) * 2 powi (e - 52)"
  shows "foldl fadd (Finite a) (replicate n (Finite c)) = Finite a'"
  using a m top a'
proof (induction n arbitrary: a m)
  case 0
  then show ?case by simp
next
  case (Suc n)
  have k0: "0 \<le> k"
  proof -
    have "real_of_int 0 \<le> c / 2 powi (e - 52)" using c by simp
    then have "0 \<le> roundTiesToEven (c / 2 powi (e - 52))" by (rule roundTiesToEven_ge)
    then show ?thesis using k by simp
  qed
  have nk: "0 \<le> int n * k" using k0 by simp
  have "m \<le> m + int n * k" using nk by linarith
  then have "real_of_int m \<le> real_of_int (m + int n * k)" by (simp only: of_int_le_iff)
  with Suc.prems(3) have top1: "of_int m + c / 2 powi (e - 52) < 2 ^ 53" by simp
  have step: "fadd (Finite a) (Finite c) = Finite (of_int (m + k) * 2 powi (e - 52))"
    unfolding Suc.prems(1) using e Suc.prems(2) c k tie top1 by (rule fadd_in_binade)
  have "foldl fadd (Finite (of_int (m + k) * 2 powi (e - 52))) (replicate n (Finite c)) = Finite a'"
  proof (rule Suc.IH)
    show "of_int (m + k) * 2 powi (e - 52) = real_of_int (m + k) * 2 powi (e - 52)" by simp
    show "2 ^ 52 \<le> m + k" using Suc.prems(2) k0 by linarith
    have "m + k + (int n - 1) * k = m + (int (Suc n) - 1) * k" by (simp add: algebra_simps)
    then show "real_of_int (m + k + (int n - 1) * k) + c / 2 powi (e - 52) < 2 ^ 53"
      using Suc.prems(3) by (simp only:)
    have "m + k + int n * k = m + int (Suc n) * k" by (simp add: algebra_simps)
    then show "a' = real_of_int (m + k + int n * k) * 2 powi (e - 52)"
      using Suc.prems(4) by (simp only:)
  qed
  then show ?case by (simp only: replicate_Suc foldl_Cons step)
qed

lemma foldl_replicate_one: "f a x = b \<Longrightarrow> foldl f a (replicate 1 x) = b"
  by simp

lemma foldl_replicate_chain:
  assumes "foldl f a (replicate n x) = b" and "foldl f b (replicate m x) = c" and "k = n + m"
  shows "foldl f a (replicate k x) = c"
  using assms by (simp add: replicate_add)

text \<open>
  The double nearest to 99999999.99 added up 2225 times from 0: the sum is below
  222499999977.745, and half a hundredth below the exact sum 222499999977.75.
\<close>

lemma largest_added_up:
  "foldl fadd (Finite 0) (replicate 2225 (Finite (6710886399328911 / 67108864))) = Finite (1822719999817687 / 8192)"
proof -
  have s0: "foldl fadd (Finite 0) (replicate 1 (Finite (6710886399328911 / 67108864))) = Finite (6710886399328911 / 67108864)"
    by (rule foldl_replicate_one, simp only: fadd.simps,
        rule round64_is [where e = "26" and m = 6710886399328911])
      (simp_all add: roundTiesToEven_def)
  have s1: "foldl fadd (Finite (6710886399328911 / 67108864)) (replicate 1 (Finite (6710886399328911 / 67108864))) = Finite (6710886399328911 / 33554432)"
    by (rule foldl_replicate_one, simp only: fadd.simps,
        rule round64_is [where e = "27" and m = 6710886399328911])
      (simp_all add: roundTiesToEven_def)
  have t1: "foldl fadd (Finite 0) (replicate 2 (Finite (6710886399328911 / 67108864))) = Finite (6710886399328911 / 33554432)"
    by (rule foldl_replicate_chain [OF s0 s1]) simp
  have s2: "foldl fadd (Finite (6710886399328911 / 33554432)) (replicate 1 (Finite (6710886399328911 / 67108864))) = Finite (5033164799496683 / 16777216)"
    by (rule foldl_replicate_one, simp only: fadd.simps,
        rule round64_is [where e = "28" and m = 5033164799496683])
      (simp_all add: roundTiesToEven_def)
  have t2: "foldl fadd (Finite 0) (replicate 3 (Finite (6710886399328911 / 67108864))) = Finite (5033164799496683 / 16777216)"
    by (rule foldl_replicate_chain [OF t1 s2]) simp
  have s3: "foldl fadd (Finite (5033164799496683 / 16777216)) (replicate 2 (Finite (6710886399328911 / 67108864))) = Finite (8388607999161139 / 16777216)"
    by (rule foldl_fadd_in_binade [where e = "28" and m = 5033164799496683 and k = 1677721599832228])
      (simp_all add: roundTiesToEven_def)
  have t3: "foldl fadd (Finite 0) (replicate 5 (Finite (6710886399328911 / 67108864))) = Finite (8388607999161139 / 16777216)"
    by (rule foldl_replicate_chain [OF t2 s3]) simp
  have s4: "foldl fadd (Finite (8388607999161139 / 16777216)) (replicate 1 (Finite (6710886399328911 / 67108864))) = Finite (5033164799496683 / 8388608)"
    by (rule foldl_replicate_one, simp only: fadd.simps,
        rule round64_is [where e = "29" and m = 5033164799496683])
      (simp_all add: roundTiesToEven_def)
  have t4: "foldl fadd (Finite 0) (replicate 6 (Finite (6710886399328911 / 67108864))) = Finite (5033164799496683 / 8388608)"
    by (rule foldl_replicate_chain [OF t3 s4]) simp
  have s5: "foldl fadd (Finite (5033164799496683 / 8388608)) (replicate 4 (Finite (6710886399328911 / 67108864))) = Finite (8388607999161139 / 8388608)"
    by (rule foldl_fadd_in_binade [where e = "29" and m = 5033164799496683 and k = 838860799916114])
      (simp_all add: roundTiesToEven_def)
  have t5: "foldl fadd (Finite 0) (replicate 10 (Finite (6710886399328911 / 67108864))) = Finite (8388607999161139 / 8388608)"
    by (rule foldl_replicate_chain [OF t4 s5]) simp
  have s6: "foldl fadd (Finite (8388607999161139 / 8388608)) (replicate 1 (Finite (6710886399328911 / 67108864))) = Finite (2306867199769313 / 2097152)"
    by (rule foldl_replicate_one, simp only: fadd.simps,
        rule round64_is [where e = "30" and m = 4613734399538626])
      (simp_all add: roundTiesToEven_def)
  have t6: "foldl fadd (Finite 0) (replicate 11 (Finite (6710886399328911 / 67108864))) = Finite (2306867199769313 / 2097152)"
    by (rule foldl_replicate_chain [OF t5 s6]) simp
  have s7: "foldl fadd (Finite (2306867199769313 / 2097152)) (replicate 10 (Finite (6710886399328911 / 67108864))) = Finite (2202009599779799 / 1048576)"
    by (rule foldl_fadd_in_binade [where e = "30" and m = 4613734399538626 and k = 419430399958057])
      (simp_all add: roundTiesToEven_def)
  have t7: "foldl fadd (Finite 0) (replicate 21 (Finite (6710886399328911 / 67108864))) = Finite (2202009599779799 / 1048576)"
    by (rule foldl_replicate_chain [OF t6 s7]) simp
  have s8: "foldl fadd (Finite (2202009599779799 / 1048576)) (replicate 1 (Finite (6710886399328911 / 67108864))) = Finite (2306867199769313 / 1048576)"
    by (rule foldl_replicate_one, simp only: fadd.simps,
        rule round64_is [where e = "31" and m = 4613734399538626])
      (simp_all add: roundTiesToEven_def)
  have t8: "foldl fadd (Finite 0) (replicate 22 (Finite (6710886399328911 / 67108864))) = Finite (2306867199769313 / 1048576)"
    by (rule foldl_replicate_chain [OF t7 s8]) simp
  have s9: "foldl fadd (Finite (2306867199769313 / 1048576)) (replicate 20 (Finite (6710886399328911 / 67108864))) = Finite (4404019199559593 / 1048576)"
    by (rule foldl_fadd_in_binade [where e = "31" and m = 4613734399538626 and k = 209715199979028])
      (simp_all add: roundTiesToEven_def)
  have t9: "foldl fadd (Finite 0) (replicate 42 (Finite (6710886399328911 / 67108864))) = Finite (4404019199559593 / 1048576)"
    by (rule foldl_replicate_chain [OF t8 s9]) simp
  have s10: "foldl fadd (Finite (4404019199559593 / 1048576)) (replicate 1 (Finite (6710886399328911 / 67108864))) = Finite (4508876799549107 / 1048576)"
    by (rule foldl_replicate_one, simp only: fadd.simps,
        rule round64_is [where e = "32" and m = 4508876799549107])
      (simp_all add: roundTiesToEven_def)
  have t10: "foldl fadd (Finite 0) (replicate 43 (Finite (6710886399328911 / 67108864))) = Finite (4508876799549107 / 1048576)"
    by (rule foldl_replicate_chain [OF t9 s10]) simp
  have s11: "foldl fadd (Finite (4508876799549107 / 1048576)) (replicate 42 (Finite (6710886399328911 / 67108864))) = Finite (8912895999108695 / 1048576)"
    by (rule foldl_fadd_in_binade [where e = "32" and m = 4508876799549107 and k = 104857599989514])
      (simp_all add: roundTiesToEven_def)
  have t11: "foldl fadd (Finite 0) (replicate 85 (Finite (6710886399328911 / 67108864))) = Finite (8912895999108695 / 1048576)"
    by (rule foldl_replicate_chain [OF t10 s11]) simp
  have s12: "foldl fadd (Finite (8912895999108695 / 1048576)) (replicate 1 (Finite (6710886399328911 / 67108864))) = Finite (4508876799549105 / 524288)"
    by (rule foldl_replicate_one, simp only: fadd.simps,
        rule round64_is [where e = "33" and m = 4508876799549105])
      (simp_all add: roundTiesToEven_def)
  have t12: "foldl fadd (Finite 0) (replicate 86 (Finite (6710886399328911 / 67108864))) = Finite (4508876799549105 / 524288)"
    by (rule foldl_replicate_chain [OF t11 s12]) simp
  have s13: "foldl fadd (Finite (4508876799549105 / 524288)) (replicate 85 (Finite (6710886399328911 / 67108864))) = Finite (4482662399551725 / 262144)"
    by (rule foldl_fadd_in_binade [where e = "33" and m = 4508876799549105 and k = 52428799994757])
      (simp_all add: roundTiesToEven_def)
  have t13: "foldl fadd (Finite 0) (replicate 171 (Finite (6710886399328911 / 67108864))) = Finite (4482662399551725 / 262144)"
    by (rule foldl_replicate_chain [OF t12 s13]) simp
  have s14: "foldl fadd (Finite (4482662399551725 / 262144)) (replicate 1 (Finite (6710886399328911 / 67108864))) = Finite (281804799971819 / 16384)"
    by (rule foldl_replicate_one, simp only: fadd.simps,
        rule round64_is [where e = "34" and m = 4508876799549104])
      (simp_all add: roundTiesToEven_def)
  have t14: "foldl fadd (Finite 0) (replicate 172 (Finite (6710886399328911 / 67108864))) = Finite (281804799971819 / 16384)"
    by (rule foldl_replicate_chain [OF t13 s14]) simp
  have s15: "foldl fadd (Finite (281804799971819 / 16384)) (replicate 171 (Finite (6710886399328911 / 67108864))) = Finite (8991539199100913 / 262144)"
    by (rule foldl_fadd_in_binade [where e = "34" and m = 4508876799549104 and k = 26214399997379])
      (simp_all add: roundTiesToEven_def)
  have t15: "foldl fadd (Finite 0) (replicate 343 (Finite (6710886399328911 / 67108864))) = Finite (8991539199100913 / 262144)"
    by (rule foldl_replicate_chain [OF t14 s15]) simp
  have s16: "foldl fadd (Finite (8991539199100913 / 262144)) (replicate 1 (Finite (6710886399328911 / 67108864))) = Finite (2254438399774573 / 65536)"
    by (rule foldl_replicate_one, simp only: fadd.simps,
        rule round64_is [where e = "35" and m = 4508876799549146])
      (simp_all add: roundTiesToEven_def)
  have t16: "foldl fadd (Finite 0) (replicate 344 (Finite (6710886399328911 / 67108864))) = Finite (2254438399774573 / 65536)"
    by (rule foldl_replicate_chain [OF t15 s16]) simp
  have s17: "foldl fadd (Finite (2254438399774573 / 65536)) (replicate 343 (Finite (6710886399328911 / 67108864))) = Finite (9004646399099473 / 131072)"
    by (rule foldl_fadd_in_binade [where e = "35" and m = 4508876799549146 and k = 13107199998689])
      (simp_all add: roundTiesToEven_def)
  have t17: "foldl fadd (Finite 0) (replicate 687 (Finite (6710886399328911 / 67108864))) = Finite (9004646399099473 / 131072)"
    by (rule foldl_replicate_chain [OF t16 s17]) simp
  have s18: "foldl fadd (Finite (9004646399099473 / 131072)) (replicate 1 (Finite (6710886399328911 / 67108864))) = Finite (4508876799549081 / 65536)"
    by (rule foldl_replicate_one, simp only: fadd.simps,
        rule round64_is [where e = "36" and m = 4508876799549081])
      (simp_all add: roundTiesToEven_def)
  have t18: "foldl fadd (Finite 0) (replicate 688 (Finite (6710886399328911 / 67108864))) = Finite (4508876799549081 / 65536)"
    by (rule foldl_replicate_chain [OF t17 s18]) simp
  have s19: "foldl fadd (Finite (4508876799549081 / 65536)) (replicate 686 (Finite (6710886399328911 / 67108864))) = Finite (9004646399099751 / 65536)"
    by (rule foldl_fadd_in_binade [where e = "36" and m = 4508876799549081 and k = 6553599999345])
      (simp_all add: roundTiesToEven_def)
  have t19: "foldl fadd (Finite 0) (replicate 1374 (Finite (6710886399328911 / 67108864))) = Finite (9004646399099751 / 65536)"
    by (rule foldl_replicate_chain [OF t18 s19]) simp
  have s20: "foldl fadd (Finite (9004646399099751 / 65536)) (replicate 1 (Finite (6710886399328911 / 67108864))) = Finite (1126399999887387 / 8192)"
    by (rule foldl_replicate_one, simp only: fadd.simps,
        rule round64_is [where e = "37" and m = 4505599999549548])
      (simp_all add: roundTiesToEven_def)
  have t20: "foldl fadd (Finite 0) (replicate 1375 (Finite (6710886399328911 / 67108864))) = Finite (1126399999887387 / 8192)"
    by (rule foldl_replicate_chain [OF t19 s20]) simp
  have s21: "foldl fadd (Finite (1126399999887387 / 8192)) (replicate 850 (Finite (6710886399328911 / 67108864))) = Finite (1822719999817687 / 8192)"
    by (rule foldl_fadd_in_binade [where e = "37" and m = 4505599999549548 and k = 3276799999672])
      (simp_all add: roundTiesToEven_def)
  have t21: "foldl fadd (Finite 0) (replicate 2225 (Finite (6710886399328911 / 67108864))) = Finite (1822719999817687 / 8192)"
    by (rule foldl_replicate_chain [OF t20 s21]) simp
  show ?thesis by (rule t21)
qed

text \<open>
  C5, as stated, at 2225 draft invoices of 99999999.99 each: the pending amount is printed
  as $222499999977.74, while the totals add up to 222499999977.75.
\<close>

theorem getInvoiceStats_conserves_counterexample:
  "pendingAmount (getInvoiceStats noon_1_June_2024 (replicate 2225 largestDraft))
     = ''$222499999977.74''
   \<and> paidAmount (getInvoiceStats noon_1_June_2024 (replicate 2225 largestDraft)) = ''$0.00''
   \<and> overdueAmount (getInvoiceStats noon_1_June_2024 (replicate 2225 largestDraft)) = ''$0.00''
   \<and> readAmount (pendingAmount (getInvoiceStats noon_1_June_2024 (replicate 2225 largestDraft)))
       + readAmount (paidAmount (getInvoiceStats noon_1_June_2024 (replicate 2225 largestDraft)))
       + readAmount (overdueAmount (getInvoiceStats noon_1_June_2024 (replicate 2225 largestDraft)))
       = 22249999997774 / 100
   \<and> sum_list (map (\<lambda>i. decimal_value (totalAmount i)) (replicate 2225 largestDraft))
       = 22249999997775 / 100"
proof -
  have p: "parseFloat (Hundredths 9999999999) = Finite (6710886399328911 / 67108864)"
    by (simp only: parseFloat_def decimal.case, rule round64_is [where e = "26" and m = 6710886399328911])
      (simp_all add: roundTiesToEven_def)
  have bucket: "spec_bucket noon_1_June_2024 largestDraft = Pending"
    by (simp add: spec_bucket_def largestDraft_def dueToday_def)
  have total: "parseFloat (totalAmount largestDraft) = Finite (6710886399328911 / 67108864)"
    using p by (simp add: largestDraft_def dueToday_def)
  have "bucket_total noon_1_June_2024 Pending (replicate 2225 largestDraft)
      = foldl fadd (Finite 0) (replicate 2225 (Finite (6710886399328911 / 67108864)))"
    by (simp add: bucket_total_def bucket total)
  then have pending: "bucket_total noon_1_June_2024 Pending (replicate 2225 largestDraft) = Finite (1822719999817687 / 8192)"
    by (simp only: largest_added_up)
  have others: "bucket_total noon_1_June_2024 Paid (replicate 2225 largestDraft) = Finite 0"
    "bucket_total noon_1_June_2024 Overdue (replicate 2225 largestDraft) = Finite 0"
    by (simp_all add: bucket_total_def bucket)
  have cents: "toFixed2 noon_1_June_2024 (Finite (1822719999817687 / 8192)) = fixed2 22249999997774"
    by (simp add: toFixed2_def)
  have zero: "toFixed2 noon_1_June_2024 (Finite 0) = fixed2 0"
    by (simp add: toFixed2_def)
  have texts: "fixed2 22249999997774 = ''222499999977.74''" "fixed2 0 = ''0.00''"
    by (simp_all add: fixed2_def Let_def digits.simps digit_chars)
  have amounts:
    "pendingAmount (getInvoiceStats noon_1_June_2024 (replicate 2225 largestDraft))
       = ''$222499999977.74''"
    "paidAmount (getInvoiceStats noon_1_June_2024 (replicate 2225 largestDraft)) = ''$0.00''"
    "overdueAmount (getInvoiceStats noon_1_June_2024 (replicate 2225 largestDraft)) = ''$0.00''"
    by (simp_all add: getInvoiceStats_sums pending others cents zero texts)
  have "readAmount (CHR ''$'' # fixed2 22249999997774) = real 22249999997774 / 100"
    "readAmount (CHR ''$'' # fixed2 0) = real 0 / 100"
    by (simp_all only: readAmount_def drop_Suc_Cons drop_0 One_nat_def readDecimal_fixed2)
  then have reads: "readAmount ''$222499999977.74'' = 22249999997774 / 100"
    "readAmount ''$0.00'' = 0"
    by (simp_all add: texts)
  have "sum_list (map (\<lambda>i. decimal_value (totalAmount i)) (replicate 2225 largestDraft))
      = 22249999997775 / 100"
    by (simp add: sum_list_replicate largestDraft_def dueToday_def decimal_value_def
        hundredths_def)
  then show ?thesis unfolding amounts using reads by simp
qed

text \<open>
  C5, amended. For a list of invoices whose number times the sum of the magnitudes of
  their totals is at most \<open>10\<^sup>1\<^sup>3\<close> (\<open>10\<^sup>1\<^sup>5\<close> in hundredths), the three amounts, read as
  numbers, add up to the sum of the totals of all the invoices. For every list the count
  is the number of invoices.
\<close>

theorem getInvoiceStats_conserves:
  "(int (length invs) * sum_list (map (\<lambda>i. \<bar>hundredths (totalAmount i)\<bar>) invs) \<le> 10 ^ 15
      \<longrightarrow> readAmount (pendingAmount (getInvoiceStats e invs))
          + readAmount (paidAmount (getInvoiceStats e invs))
          + readAmount (overdueAmount (getInvoiceStats e invs))
        = sum_list (map (\<lambda>i. decimal_value (totalAmount i)) invs))
   \<and> totalInvoices (getInvoiceStats e invs) = length invs"
proof -
  have "readAmount (pendingAmount (getInvoiceStats e invs))
      + readAmount (paidAmount (getInvoiceStats e invs))
      + readAmount (overdueAmount (getInvoiceStats e invs))
    = sum_list (map (\<lambda>i. decimal_value (totalAmount i)) invs)"
    if small: "int (length invs) * sum_list (map (\<lambda>i. \<bar>hundredths (totalAmount i)\<bar>) invs) \<le> 10 ^ 15"
  proof -
    have "readAmount (pendingAmount (getInvoiceStats e invs))
        + readAmount (paidAmount (getInvoiceStats e invs))
        + readAmount (overdueAmount (getInvoiceStats e invs))
      = bucket_sum e Pending invs + bucket_sum e Paid invs + bucket_sum e Overdue invs"
      by (simp add: getInvoiceStats_sums readAmount_bucket [OF small])
    also have "\<dots> = sum_list (map (\<lambda>i. decimal_value (totalAmount i)) invs)"
      by (rule bucket_sum_partition)
    finally show ?thesis .
  qed
  then show ?thesis
    by (simp add: getInvoiceStats_count)
qed

theorem getInvoiceStats_conserves_witness:
  "int (length sampleInvoices)
     * sum_list (map (\<lambda>i. \<bar>hundredths (totalAmount i)\<bar>) sampleInvoices) \<le> 10 ^ 15
   \<and> readAmount (pendingAmount (getInvoiceStats noon_1_June_2024 sampleInvoices))
     + readAmount (paidAmount (getInvoiceStats noon_1_June_2024 sampleInvoices))
     + readAmount (overdueAmount (getInvoiceStats noon_1_June_2024 sampleInvoices))
   = 37943 / 100
   \<and> totalInvoices (getInvoiceStats noon_1_June_2024 sampleInvoices) = 6"
proof -
  have size: "int (length sampleInvoices)
      * sum_list (map (\<lambda>i. \<bar>hundredths (totalAmount i)\<bar>) sampleInvoices) \<le> 10 ^ 15"
    by (simp add: sampleInvoices_def dueToday_def hundredths_def)
  have sum: "sum_list (map (\<lambda>i. decimal_value (totalAmount i)) sampleInvoices) = 37943 / 100"
    by (simp add: sampleInvoices_def dueToday_def decimal_value_def hundredths_def)
  have count: "length sampleInvoices = 6" by (simp add: sampleInvoices_def)
  have "readAmount (pendingAmount (getInvoiceStats noon_1_June_2024 sampleInvoices))
      + readAmount (paidAmount (getInvoiceStats noon_1_June_2024 sampleInvoices))
      + readAmount (overdueAmount (getInvoiceStats noon_1_June_2024 sampleInvoices))
    = 37943 / 100
    \<and> totalInvoices (getInvoiceStats noon_1_June_2024 sampleInvoices) = 6"
    using getInvoiceStats_conserves [of sampleInvoices noon_1_June_2024] size
    unfolding sum count by blast
  with size show ?thesis by blast
qed

text \<open>
  C6, where the code leaves the claim. At noon of 1 June 2024 a pending invoice due on
  that day is counted as overdue by the aggregator, whose test is against the current
  instant, while the status derivation, whose test is against the start of the day, keeps
  it pending.
\<close>

theorem aggregator_and_badge_disagree:
  "overdueAmount (getInvoiceStats noon_1_June_2024 [dueToday]) = ''$118.13''
   \<and> pendingAmount (getInvoiceStats noon_1_June_2024 [dueToday]) = ''$0.00''
   \<and> getInvoiceStatus noon_1_June_2024 (status dueToday) (dueDate dueToday) = ''pending''
   \<and> \<not> isInvoiceOverdue noon_1_June_2024 (dueDate dueToday) (status dueToday)"
proof -
  have ap0: "parseFloat (Hundredths 11813) = Finite (1039082468713431 / 8796093022208)"
    by (simp only: parseFloat_def decimal.case, rule round64_is [where e = "6" and m = 8312659749707448])
      (simp_all add: roundTiesToEven_def)
  have as0: "fadd (Finite 0) (Finite (1039082468713431 / 8796093022208)) = Finite (1039082468713431 / 8796093022208)"
    by (simp only: fadd.simps, rule round64_is [where e = "6" and m = 8312659749707448])
      (simp_all add: roundTiesToEven_def)
  have "tally noon_1_June_2024 (Finite 0, Finite 0, Finite 0) dueToday
      = (Finite 0, Finite 0, fadd (Finite 0) (parseFloat (Hundredths 11813)))"
    by (simp add: tally_def Let_def dueToday_def noon_1_June_2024_def isoDates_def date_less_def
        del: fadd.simps)
  then have acc: "tally noon_1_June_2024 (Finite 0, Finite 0, Finite 0) dueToday
      = (Finite 0, Finite 0, Finite (1039082468713431 / 8796093022208))"
    by (simp only: ap0 as0)
  have big: "toFixed2 noon_1_June_2024 (Finite (1039082468713431 / 8796093022208)) = ''118.13''"
    by (simp add: toFixed2_def fixed2_def Let_def digits.simps digit_chars)
  have zero: "toFixed2 noon_1_June_2024 (Finite 0) = ''0.00''"
    by (simp add: toFixed2_def fixed2_def Let_def digits.simps digit_chars)
  have notyet: "\<not> isInvoiceOverdue noon_1_June_2024 (dueDate dueToday) (status dueToday)"
    by (simp add: isInvoiceOverdue_def Let_def dueToday_def noon_1_June_2024_def isoDates_def
        setHours0_def msPerDay_def date_less_def)
  have "getInvoiceStatus noon_1_June_2024 (status dueToday) (dueDate dueToday) = ''pending''"
    using notyet by (simp add: getInvoiceStatus_def) (simp add: dueToday_def)
  then show ?thesis
    using notyet by (simp add: getInvoiceStats_def acc big zero)
qed

text \<open>
  The two tests agree in one direction, on a host whose offset from UTC is the same at all
  times: what the derivation calls overdue, the aggregator's test calls overdue too.
\<close>

lemma badge_overdue_then_aggregator_overdue:
  assumes "\<And>t b. LocalTZA e t b = z" and "isInvoiceOverdue e d ''pending''"
  shows "date_less (Date_parse e d) (Some (Date_now e))"
proof -
  have "(Date_now e + z) div msPerDay * msPerDay \<le> Date_now e + z"
    by (simp add: msPerDay_def)
  then have "setHours0 e (Date_now e) \<le> Date_now e"
    using setHours0_constant_offset [of e z "Date_now e"] assms(1) by simp
  then show ?thesis
    using assms(2)
    by (auto simp: isInvoiceOverdue_def Let_def date_less_def split: option.splits)
qed

section \<open>Properties of the validation\<close>

text \<open>The list built by the five tests, one message for each test that fails.\<close>

lemma validateInvoiceData_closed:
  "validateInvoiceData e invoice =
     (case invoice ''invoiceNumber'' of
        JNum x \<Rightarrow> Inl TypeError
      | _ \<Rightarrow>
          Inr ((if nonBlank (invoice ''invoiceNumber'') then [] else [''Invoice number is required''])
             @ (if present (invoice ''clientId'') then [] else [''Client is required''])
             @ (if present (invoice ''issueDate'') then [] else [''Issue date is required''])
             @ (if present (invoice ''dueDate'') then [] else [''Due date is required''])
             @ (if dueBeforeIssue e invoice then [''Due date must be after issue date''] else [])))"
  by (cases "invoice ''invoiceNumber''")
    (simp_all add: validateInvoiceData_def optionalTrim_def nonBlank_def present_def
      dueBeforeIssue_def truthy_def Let_def)

text \<open>
  C10. The list of errors is empty exactly when the invoice number is present and not blank
  after trimming, the client is present, both dates are present, and the due date is not
  before the issue date. Each condition that fails puts its own message on the list, once,
  and no other does. (An invoice number that is a number makes the call throw.)
\<close>

theorem validateInvoiceData_correct:
  "(validateInvoiceData e invoice = Inr [] \<longleftrightarrow>
      nonBlank (invoice ''invoiceNumber'') \<and> present (invoice ''clientId'')
      \<and> present (invoice ''issueDate'') \<and> present (invoice ''dueDate'')
      \<and> \<not> dueBeforeIssue e invoice)
   \<and> (\<forall>errors. validateInvoiceData e invoice = Inr errors \<longrightarrow>
        distinct errors
        \<and> (''Invoice number is required'' \<in> set errors
             \<longleftrightarrow> \<not> nonBlank (invoice ''invoiceNumber''))
        \<and> (''Client is required'' \<in> set errors \<longleftrightarrow> \<not> present (invoice ''clientId''))
        \<and> (''Issue date is required'' \<in> set errors \<longleftrightarrow> \<not> present (invoice ''issueDate''))
        \<and> (''Due date is required'' \<in> set errors \<longleftrightarrow> \<not> present (invoice ''dueDate''))
        \<and> (''Due date must be after issue date'' \<in> set errors
             \<longleftrightarrow> dueBeforeIssue e invoice))
   \<and> (validateInvoiceData e invoice = Inl TypeError
        \<longleftrightarrow> (case invoice ''invoiceNumber'' of JNum x \<Rightarrow> True | _ \<Rightarrow> False))"
proof (cases "invoice ''invoiceNumber''")
  case Undefined
  then show ?thesis by (simp add: validateInvoiceData_closed nonBlank_def)
next
  case Null
  then show ?thesis by (simp add: validateInvoiceData_closed nonBlank_def)
next
  case (JStr s)
  then show ?thesis by (simp add: validateInvoiceData_closed)
next
  case (JNum x)
  then show ?thesis by (simp add: validateInvoiceData_closed nonBlank_def)
qed

theorem validateInvoiceData_correct_witness:
  "validateInvoiceData noon_1_June_2024 badForm
     = Inr [''Invoice number is required'', ''Due date must be after issue date'']
   \<and> \<not> nonBlank (badForm ''invoiceNumber'') \<and> present (badForm ''clientId'')
   \<and> present (badForm ''issueDate'') \<and> present (badForm ''dueDate'')
   \<and> dueBeforeIssue noon_1_June_2024 badForm
   \<and> ''Invoice number is required''
       \<in> set [''Invoice number is required'', ''Due date must be after issue date'']
   \<and> validateInvoiceData noon_1_June_2024 sampleForm = Inr []
   \<and> nonBlank (sampleForm ''invoiceNumber'')"
proof -
  have bad: "validateInvoiceData noon_1_June_2024 badForm
      = Inr [''Invoice number is required'', ''Due date must be after issue date'']"
    by (simp add: validateInvoiceData_def optionalTrim_def badForm_def trim_def isWhiteSpace_def
        truthy_def newDate_def noon_1_June_2024_def isoDates_def date_less_def Let_def)
  have good: "nonBlank (sampleForm ''invoiceNumber'')" "present (sampleForm ''clientId'')"
    "present (sampleForm ''issueDate'')" "present (sampleForm ''dueDate'')"
    "\<not> dueBeforeIssue noon_1_June_2024 sampleForm"
    by (simp_all add: nonBlank_def present_def truthy_def dueBeforeIssue_def sampleForm_def
        trim_def isWhiteSpace_def newDate_def noon_1_June_2024_def isoDates_def date_less_def)
  show ?thesis
    using validateInvoiceData_correct [of noon_1_June_2024 badForm]
      validateInvoiceData_correct [of noon_1_June_2024 sampleForm] bad good
    by simp
qed

section \<open>Properties of the spreadsheet export\<close>

lemma itemRow_not_blank: "itemRow item \<noteq> blankRow"
  by (simp add: itemRow_def blankRow_def)

lemma readItemRow_itemRow: "readItemRow (itemRow item) = Some item"
  by (simp add: itemRow_def)

lemma takeWhile_itemRows:
  "takeWhile (\<lambda>r. r \<noteq> blankRow) (map itemRow its @ blankRow # rest) = map itemRow its"
  by (induction its) (simp_all add: itemRow_not_blank)

lemma invoiceData_length: "length (invoiceData invoice) = 18 + length (items invoice)"
  by (simp add: invoiceData_def)

lemma readItems_invoiceData: "readItems (invoiceData invoice) = map Some (items invoice)"
proof -
  have "drop 1 (dropWhile (\<lambda>r. r \<noteq> tableHeaderRow) (invoiceData invoice)) =
      map itemRow (items invoice) @ blankRow #
        [[TextCell ''Subtotal'', TextCell [], TextCell [], DecimalCell (subtotal invoice)],
         [TextCell ''Discount (%)'', TextCell [], TextCell [], orZero (discount invoice)],
         [TextCell ''Tax (%)'', TextCell [], TextCell [], orZero (tax invoice)],
         [TextCell ''Total'', TextCell [], TextCell [], DecimalCell (totalAmount invoice)]]"
    by (simp add: invoiceData_def tableHeaderRow_def blankRow_def)
  then have "readItems (invoiceData invoice) = map readItemRow (map itemRow (items invoice))"
    by (simp only: readItems_def takeWhile_itemRows)
  then show ?thesis
    by (simp add: readItemRow_itemRow comp_def)
qed

lemma invoiceData_parts:
  obtains pre where "length pre = 13"
    and "invoiceData invoice = pre @ map itemRow (items invoice) @
      [blankRow,
       [TextCell ''Subtotal'', TextCell [], TextCell [], DecimalCell (subtotal invoice)],
       [TextCell ''Discount (%)'', TextCell [], TextCell [], orZero (discount invoice)],
       [TextCell ''Tax (%)'', TextCell [], TextCell [], orZero (tax invoice)],
       [TextCell ''Total'', TextCell [], TextCell [], DecimalCell (totalAmount invoice)]]"
proof
  let ?pre = "take 13 (invoiceData invoice)"
  show "length ?pre = 13"
    by (simp add: invoiceData_length)
  show "invoiceData invoice = ?pre @ map itemRow (items invoice) @
      [blankRow,
       [TextCell ''Subtotal'', TextCell [], TextCell [], DecimalCell (subtotal invoice)],
       [TextCell ''Discount (%)'', TextCell [], TextCell [], orZero (discount invoice)],
       [TextCell ''Tax (%)'', TextCell [], TextCell [], orZero (tax invoice)],
       [TextCell ''Total'', TextCell [], TextCell [], DecimalCell (totalAmount invoice)]]"
    by (simp add: invoiceData_def blankRow_def)
qed

lemma item_row_at:
  assumes "k < length (items invoice)"
  shows "invoiceData invoice ! (13 + k) = itemRow (items invoice ! k)"
proof -
  obtain pre post where pre: "length pre = 13"
    and eq: "invoiceData invoice = pre @ map itemRow (items invoice) @ post"
    by (rule invoiceData_parts)
  have "(pre @ map itemRow (items invoice) @ post) ! (length pre + k)
      = (map itemRow (items invoice) @ post) ! k"
    by (rule nth_append_length_plus)
  also have "\<dots> = itemRow (items invoice ! k)"
    using assms by (simp add: nth_append)
  finally show ?thesis
    by (simp only: eq pre)
qed

lemma summary_values:
  "map last (drop (14 + length (items invoice)) (invoiceData invoice)) =
     [DecimalCell (subtotal invoice), orZero (discount invoice), orZero (tax invoice),
      DecimalCell (totalAmount invoice)]"
proof -
  obtain pre where pre: "length pre = 13"
    and eq: "invoiceData invoice = pre @ map itemRow (items invoice) @
      [blankRow,
       [TextCell ''Subtotal'', TextCell [], TextCell [], DecimalCell (subtotal invoice)],
       [TextCell ''Discount (%)'', TextCell [], TextCell [], orZero (discount invoice)],
       [TextCell ''Tax (%)'', TextCell [], TextCell [], orZero (tax invoice)],
       [TextCell ''Total'', TextCell [], TextCell [], DecimalCell (totalAmount invoice)]]"
    by (rule invoiceData_parts)
  show ?thesis
    unfolding eq using pre by simp
qed

text \<open>
  The order the specification lists is what the sheet of the sample invoice has once the
  title row \<^verbatim>\<open>Items\<close>, row 11, is taken out.
\<close>

lemma claimedOrder_but_for_title:
  "claimedOrder sampleInvoice
     (take 11 (invoiceData sampleInvoice) @ drop 12 (invoiceData sampleInvoice))"
  by (simp add: claimedOrder_def invoiceData_def afterBlank_def blankRow_def tableHeaderRow_def
      sampleInvoice_def acme_def Let_def orEmpty_def orZero_def isPair_def itemRow_def)

text \<open>
  C8, as stated, on the sample invoice: read from the top in the order the specification
  lists, the sheet does not fit. After the second blank row comes the title row
  \<^verbatim>\<open>['Items', '']\<close>, not the item-table header row.
\<close>

theorem claimedOrder_counterexample:
  "\<not> claimedOrder sampleInvoice (invoiceData sampleInvoice)
   \<and> take 1 (afterBlank (afterBlank (invoiceData sampleInvoice))) = [[TextCell ''Items'', TextCell []]]"
  by (simp add: claimedOrder_def invoiceData_def afterBlank_def blankRow_def tableHeaderRow_def
      sampleInvoice_def acme_def Let_def orEmpty_def)

text \<open>
  C8, amended. The rows are, in this order: the four header pairs, a blank row, the title
  row \<^verbatim>\<open>Bill To\<close> and the four client pairs, a blank row, the title row \<^verbatim>\<open>Items\<close> and
  the item-table header row, one row for each item in the order of the input with its
  description, quantity, rate and amount as they are, a blank row, and the four summary
  rows with the value in the last column (the text 0 for a missing discount or tax). So
  item \<open>k\<close> is row \<open>13 + k\<close>, and reading the rows between the item-table header row
  and the next blank row gives the items back.
\<close>

theorem invoiceData_layout:
  "invoiceData invoice =
     [[TextCell ''Invoice Number'', TextCell (invoiceNumber invoice)],
      [TextCell ''Issue Date'', TextCell (issueDate invoice)],
      [TextCell ''Due Date'', TextCell (dueDate invoice)],
      [TextCell ''Status'', TextCell (status invoice)]]
     @ [blankRow]
     @ [[TextCell ''Bill To'', TextCell []],
        [TextCell ''Client Name'', TextCell (name (client invoice))],
        [TextCell ''Email'', orEmpty (email (client invoice))],
        [TextCell ''Phone'', orEmpty (phone (client invoice))],
        [TextCell ''Address'', orEmpty (address (client invoice))]]
     @ [blankRow]
     @ [[TextCell ''Items'', TextCell []], tableHeaderRow]
     @ map itemRow (items invoice)
     @ [blankRow]
     @ [[TextCell ''Subtotal'', TextCell [], TextCell [], DecimalCell (subtotal invoice)],
        [TextCell ''Discount (%)'', TextCell [], TextCell [], orZero (discount invoice)],
        [TextCell ''Tax (%)'', TextCell [], TextCell [], orZero (tax invoice)],
        [TextCell ''Total'', TextCell [], TextCell [], DecimalCell (totalAmount invoice)]]
   \<and> length (invoiceData invoice) = 18 + length (items invoice)
   \<and> (\<forall>k<length (items invoice). invoiceData invoice ! (13 + k) = itemRow (items invoice ! k))
   \<and> readItems (invoiceData invoice) = map Some (items invoice)
   \<and> map last (drop (14 + length (items invoice)) (invoiceData invoice)) =
       [DecimalCell (subtotal invoice), orZero (discount invoice), orZero (tax invoice),
        DecimalCell (totalAmount invoice)]"
proof -
  have "invoiceData invoice =
     [[TextCell ''Invoice Number'', TextCell (invoiceNumber invoice)],
      [TextCell ''Issue Date'', TextCell (issueDate invoice)],
      [TextCell ''Due Date'', TextCell (dueDate invoice)],
      [TextCell ''Status'', TextCell (status invoice)]]
     @ [blankRow]
     @ [[TextCell ''Bill To'', TextCell []],
        [TextCell ''Client Name'', TextCell (name (client invoice))],
        [TextCell ''Email'', orEmpty (email (client invoice))],
        [TextCell ''Phone'', orEmpty (phone (client invoice))],
        [TextCell ''Address'', orEmpty (address (client invoice))]]
     @ [blankRow]
     @ [[TextCell ''Items'', TextCell []], tableHeaderRow]
     @ map itemRow (items invoice)
     @ [blankRow]
     @ [[TextCell ''Subtotal'', TextCell [], TextCell [], DecimalCell (subtotal invoice)],
        [TextCell ''Discount (%)'', TextCell [], TextCell [], orZero (discount invoice)],
        [TextCell ''Tax (%)'', TextCell [], TextCell [], orZero (tax invoice)],
        [TextCell ''Total'', TextCell [], TextCell [], DecimalCell (totalAmount invoice)]]"
    by (simp add: invoiceData_def blankRow_def tableHeaderRow_def)
  then show ?thesis
    using invoiceData_length readItems_invoiceData item_row_at summary_values by blast
qed

theorem invoiceData_layout_witness:
  "(1::nat) < length (items sampleInvoice)
   \<and> invoiceData sampleInvoice ! 14 = itemRow parts
   \<and> readItems (invoiceData sampleInvoice) = [Some work, Some parts]
   \<and> length (invoiceData sampleInvoice) = 20"
proof -
  note layout = invoiceData_layout [of sampleInvoice, THEN conjunct2]
  have its: "items sampleInvoice = [work, parts]"
    by (simp add: sampleInvoice_def)
  have "\<forall>k<length (items sampleInvoice).
      invoiceData sampleInvoice ! (13 + k) = itemRow (items sampleInvoice ! k)"
    using layout by (rule conjunct2 [THEN conjunct1])
  then have "1 < length (items sampleInvoice) \<longrightarrow>
      invoiceData sampleInvoice ! (13 + 1) = itemRow (items sampleInvoice ! 1)"
    by (rule spec)
  then have second: "invoiceData sampleInvoice ! 14 = itemRow parts"
    by (simp add: its)
  have "readItems (invoiceData sampleInvoice) = map Some (items sampleInvoice)"
    using layout by (rule conjunct2 [THEN conjunct2, THEN conjunct1])
  moreover have "length (invoiceData sampleInvoice) = 18 + length (items sampleInvoice)"
    using layout by (rule conjunct1)
  ultimately show ?thesis
    using second by (simp add: its)
qed

section \<open>Properties of the PDF export\<close>

lemma foldl_drawItem:
  "foldl drawItem (doc, y) its = (doc @ itemBlock y its, y + 10 * int (length its))"
proof (induction its arbitrary: doc y)
  case Nil
  show ?case by simp
next
  case (Cons item its)
  have "foldl drawItem (doc, y) (item # its) = foldl drawItem (doc @ itemLines item y, y + 10) its"
    by (simp add: drawItem_def)
  also have "\<dots> = ((doc @ itemLines item y) @ itemBlock (y + 10) its, (y + 10) + 10 * int (length its))"
    by (rule Cons.IH)
  finally show ?case by simp
qed

lemma length_itemBlock: "length (itemBlock y its) = 4 * length its"
  by (induction its arbitrary: y) (simp_all add: itemLines_def)

lemma textsAt_append: "textsAt y (a @ b) = textsAt y a @ textsAt y b"
  by (simp add: textsAt_def)

lemma textsAt_itemBlock: "h < y \<Longrightarrow> textsAt h (itemBlock y its) = []"
proof (induction its arbitrary: y)
  case Nil
  show ?case by (simp add: textsAt_def)
next
  case (Cons item its)
  have "textsAt h (itemBlock (y + 10) its) = []"
    using Cons.prems by (intro Cons.IH) simp
  moreover have "textsAt h (itemLines item y) = []"
    using Cons.prems by (simp add: textsAt_def itemLines_def)
  ultimately show ?case
    by (simp add: textsAt_append)
qed

lemma textsAt_totalsBlock: "h < y \<Longrightarrow> textsAt h (totalsBlock invoice y) = []"
  by (simp add: textsAt_def totalsBlock_def step_def)

text \<open>The test \<^verbatim>\<open>parseFloat(v) > 0\<close> of the route holds exactly of a decimal above 0.\<close>

lemma parseFloat_above_zero:
  "fless (Finite 0) (parseFloat d) = (case d of Hundredths n \<Rightarrow> 0 < n)"
  by (cases d) (simp add: parseFloat_positive)

lemma invoicePdf_closed:
  "invoicePdf invoice =
     [SetFontSize 20,
      DrawText ''INVOICE'' 20 30,
      SetFontSize 12,
      DrawText (''Invoice #: '' @ invoiceNumber invoice) 20 50,
      DrawText (''Issue Date: '' @ issueDate invoice) 20 60,
      DrawText (''Due Date: '' @ dueDate invoice) 20 70,
      DrawText ''Bill To:'' 20 90,
      DrawText (name (client invoice)) 20 100]
     @ (if hasAddress invoice then [DrawText (addressText invoice) 20 110] else [])
     @ [DrawText ''Description'' 20 130, DrawText ''Qty'' 120 130, DrawText ''Rate'' 140 130,
        DrawText ''Amount'' 160 130]
     @ itemBlock 140 (items invoice)
     @ totalsBlock invoice (150 + 10 * int (length (items invoice)))"
  by (simp add: invoicePdf_def Let_def foldl_drawItem hasAddress_def addressText_def
      totalsBlock_def positive_def percentText_def step_def parseFloat_above_zero
      split: option.split)

lemma totalsBlock_lines:
  "labelled ''Subtotal: '' (hd (totalsBlock invoice y))
   \<and> (list_ex (labelled ''Discount: '') (totalsBlock invoice y) \<longleftrightarrow> positive (discount invoice))
   \<and> (list_ex (labelled ''Tax: '') (totalsBlock invoice y) \<longleftrightarrow> positive (tax invoice))
   \<and> labelled ''Total: '' (last (totalsBlock invoice y))"
  by (simp add: totalsBlock_def)

lemma last_totalsBlock:
  "last (doc @ totalsBlock invoice y) = last (totalsBlock invoice y)"
  by (simp add: totalsBlock_def)

text \<open>
  C9. The address line, the only text at height 110, is there exactly when the client has
  an address, and no line stands in its place when not. The totals block follows the
  lines of the items: the subtotal line first, always; the discount line exactly when the
  discount is above 0; the tax line exactly when the tax is above 0; the total line last,
  always, and last of the document.
\<close>

theorem invoicePdf_conditional_lines:
  "(let doc = invoicePdf invoice;
        n = length (items invoice);
        block = drop (12 + (if hasAddress invoice then 1 else 0) + 4 * n) doc
    in textsAt 110 doc = (if hasAddress invoice then [addressText invoice] else [])
       \<and> length doc = 12 + (if hasAddress invoice then 1 else 0) + 4 * n + 2
            + (if positive (discount invoice) then 1 else 0)
            + (if positive (tax invoice) then 1 else 0)
       \<and> block = totalsBlock invoice (150 + 10 * int n)
       \<and> labelled ''Subtotal: '' (hd block)
       \<and> (list_ex (labelled ''Discount: '') block \<longleftrightarrow> positive (discount invoice))
       \<and> (list_ex (labelled ''Tax: '') block \<longleftrightarrow> positive (tax invoice))
       \<and> labelled ''Total: '' (last block)
       \<and> last doc = last block)"
proof -
  let ?n = "length (items invoice)"
  let ?y = "150 + 10 * int ?n"
  let ?start = "12 + (if hasAddress invoice then 1 else 0) + 4 * ?n"
  define pre where "pre =
     [SetFontSize 20,
      DrawText ''INVOICE'' 20 30,
      SetFontSize 12,
      DrawText (''Invoice #: '' @ invoiceNumber invoice) 20 50,
      DrawText (''Issue Date: '' @ issueDate invoice) 20 60,
      DrawText (''Due Date: '' @ dueDate invoice) 20 70,
      DrawText ''Bill To:'' 20 90,
      DrawText (name (client invoice)) 20 100]
     @ (if hasAddress invoice then [DrawText (addressText invoice) 20 110] else [])
     @ [DrawText ''Description'' 20 130, DrawText ''Qty'' 120 130, DrawText ''Rate'' 140 130,
        DrawText ''Amount'' 160 130]
     @ itemBlock 140 (items invoice)"
  have doc: "invoicePdf invoice = pre @ totalsBlock invoice ?y"
    by (simp add: invoicePdf_closed pre_def)
  have lpre: "length pre = ?start"
    by (simp add: pre_def length_itemBlock)
  have block: "drop ?start (invoicePdf invoice) = totalsBlock invoice ?y"
    unfolding doc lpre [symmetric] by simp
  have at110: "textsAt 110 (invoicePdf invoice)
      = (if hasAddress invoice then [addressText invoice] else [])"
  proof -
    have "textsAt 110 (itemBlock 140 (items invoice)) = []"
      by (rule textsAt_itemBlock) simp
    moreover have "textsAt 110 (totalsBlock invoice ?y) = []"
      by (rule textsAt_totalsBlock) simp
    ultimately show ?thesis
      by (simp add: doc pre_def textsAt_append) (simp add: textsAt_def)
  qed
  have len: "length (invoicePdf invoice) = ?start + 2
      + (if positive (discount invoice) then 1 else 0)
      + (if positive (tax invoice) then 1 else 0)"
    unfolding doc length_append lpre by (simp add: totalsBlock_def)
  have lst: "last (invoicePdf invoice) = last (totalsBlock invoice ?y)"
    unfolding doc by (rule last_totalsBlock)
  show ?thesis
    unfolding Let_def block
    using at110 len lst totalsBlock_lines [of invoice ?y] by simp
qed

theorem invoicePdf_conditional_lines_witness:
  "textsAt 110 (invoicePdf sampleInvoice) = [''1 High Street'']
   \<and> drop 21 (invoicePdf sampleInvoice) =
       [DrawText ''Subtotal: $125.00'' 120 170,
        DrawText ''Discount: 10.00%'' 120 180,
        DrawText ''Total: $112.50'' 120 190]"
proof -
  have texts: "decimal_text (Hundredths 12500) = ''125.00''"
    "decimal_text (Hundredths 1000) = ''10.00''"
    "decimal_text (Hundredths 11250) = ''112.50''"
    by (simp_all add: decimal_text_def fixed2_def Let_def digits.simps digit_chars)
  have "hasAddress sampleInvoice" "positive (discount sampleInvoice)"
    "\<not> positive (tax sampleInvoice)"
    by (simp_all add: hasAddress_def positive_def sampleInvoice_def acme_def)
  then show ?thesis
    using invoicePdf_conditional_lines [of sampleInvoice]
    by (simp add: Let_def totalsBlock_def step_def percentText_def addressText_def)
      (simp add: sampleInvoice_def acme_def texts)
qed

end
